theory Spec2Isabelle
  imports Main "HOL-Library.Sublist"
begin

section \<open>The OneNote to Markdown exporter\<close>

text \<open>
  A shallow embedding of \<^verbatim>\<open>onenote_exporter.py\<close>. A Python \<^verbatim>\<open>str\<close> is a
  \<^typ>\<open>string\<close> whose characters stand for code points (HOL's \<^typ>\<open>char\<close> has
  256 values, the range of an HTTP header value). Python exceptions are values of
  \<open>error\<close>; a function that may raise returns \<open>error + 'a\<close>, with \<open>Inl\<close> the
  exception. The network, the clock, the disk and the log are an explicit \<open>world\<close>:
  the URLs requested so far, the durations slept so far, the file writes so far and the
  per-page log lines so far, each in order, and the longest sleep the operating system
  accepts.
\<close>

subsection \<open>Exceptions, responses, the world\<close>

datatype error =
    RequestException
  | HTTPError int string
  | ValueError
  | OverflowError
  | AttributeError
  | KeyError
  | OSError
  | OtherException

text \<open>
  \<^verbatim>\<open>except requests.exceptions.RequestException\<close> catches a connection failure
  or timeout (\<open>RequestException\<close>) and the \<open>HTTPError\<close> of
  \<^verbatim>\<open>raise_for_status\<close>, which is a subclass of it; nothing else.
\<close>

fun is_RequestException :: "error \<Rightarrow> bool" where
  "is_RequestException RequestException = True"
| "is_RequestException (HTTPError _ _) = True"
| "is_RequestException _ = False"

text \<open>
  The parsed body of a listing: \<^verbatim>\<open>data.get("value", [])\<close> and the optional
  \<^verbatim>\<open>"@odata.nextLink"\<close> key.
\<close>

record 'r listing =
  value_field :: "'r list option"
  nextLink :: "string option"

text \<open>
  A response as the code reads it: the status code, the \<^verbatim>\<open>Retry-After\<close> and
  \<^verbatim>\<open>content-type\<close> headers when present, the body text, what
  \<^verbatim>\<open>response.json()\<close> gives (it may raise), and the chunks that
  \<^verbatim>\<open>response.iter_content\<close> yields before the stream ends or breaks.
\<close>

record 'r response =
  status_code :: int
  retry_after :: "string option"
  content_type :: "string option"
  body_text :: string
  json :: "error + 'r listing"
  chunks :: "string list"
  stream_error :: "error option"

datatype 'r get_outcome = Raises error | Returns "'r response"

datatype log_entry = Exported string | Failed string error

record world =
  requests :: "string list"
  slept :: "int list"
  written :: "(string \<times> string) list"
  logged :: "log_entry list"
  longest_sleep :: int

text \<open>
  The network: the outcome of the \<open>n\<close>-th request of the run (counted from 0), made
  to the given URL. \<^verbatim>\<open>self.session.get(url)\<close> asks it and logs the request.
\<close>

type_synonym 'r net = "nat \<Rightarrow> string \<Rightarrow> 'r get_outcome"

definition session_get :: "'r net \<Rightarrow> string \<Rightarrow> world \<Rightarrow> 'r get_outcome \<times> world" where
  "session_get net url w = (net (length (requests w)) url, w\<lparr>requests := requests w @ [url]\<rparr>)"

text \<open>
  \<^verbatim>\<open>time.sleep(d)\<close> on an integer: \<^verbatim>\<open>ValueError\<close> on a negative duration;
  \<^verbatim>\<open>OverflowError\<close> on one that does not fit the interpreter's clock of 64-bit
  nanoseconds, that is beyond 9223372036 seconds; \<^verbatim>\<open>OSError\<close> on one that the
  operating system refuses (Linux refuses the last stretch below that limit, by as
  much as the machine has been running), which is why the longest accepted sleep is a
  field of the world.
\<close>

definition MAX_SLEEP :: int where
  "MAX_SLEEP = 9223372036"

definition sleep :: "int \<Rightarrow> world \<Rightarrow> error + world" where
  "sleep d w =
     (if d < 0 then Inl ValueError
      else if MAX_SLEEP < d then Inl OverflowError
      else if longest_sleep w < d then Inl OSError
      else Inr (w\<lparr>slept := slept w @ [d]\<rparr>))"

text \<open>The durations for which \<open>sleep\<close> does not raise.\<close>

definition can_sleep :: "world \<Rightarrow> int \<Rightarrow> bool" where
  "can_sleep w d = (0 \<le> d \<and> d \<le> MAX_SLEEP \<and> d \<le> longest_sleep w)"

text \<open>
  \<^verbatim>\<open>response.raise_for_status()\<close> of the requests library: an \<open>HTTPError\<close>
  carrying the response for a status from 400 to 599, nothing otherwise.
\<close>

definition raise_for_status :: "'r response \<Rightarrow> error + unit" where
  "raise_for_status r =
     (if 400 \<le> status_code r \<and> status_code r < 600
      then Inl (HTTPError (status_code r) (body_text r)) else Inr ())"

subsection \<open>Python's \<^verbatim>\<open>str.strip()\<close> and \<^verbatim>\<open>int()\<close>\<close>

text \<open>
  \<^verbatim>\<open>s.strip()\<close> removes the characters with \<^verbatim>\<open>isspace()\<close> from both
  ends; among the code points below 256 these are 9 to 13, 28 to 32, 133 and 160.
\<close>

definition isspace :: "char \<Rightarrow> bool" where
  "isspace c = (let n = (of_char c :: nat) in
     (9 \<le> n \<and> n \<le> 13) \<or> (28 \<le> n \<and> n \<le> 32) \<or> n = 133 \<or> n = 160)"

definition strip :: "string \<Rightarrow> string" where
  "strip s = rev (dropWhile isspace (rev (dropWhile isspace s)))"

text \<open>
  \<^verbatim>\<open>int(s)\<close> in base 10 on a string of code points below 256: surrounding
  whitespace is skipped (here 28 to 31 do not count as whitespace), one sign is allowed,
  then decimal digits, where single underscores may separate digits. Anything else
  raises \<^verbatim>\<open>ValueError\<close> (\<open>None\<close>), and so does a string with more digits
  than the interpreter's limit, 4300 unless it is configured otherwise.
\<close>

definition int_space :: "char \<Rightarrow> bool" where
  "int_space c = (let n = (of_char c :: nat) in
     (9 \<le> n \<and> n \<le> 13) \<or> n = 32 \<or> n = 133 \<or> n = 160)"

definition isdigit :: "char \<Rightarrow> bool" where
  "isdigit c = (let n = (of_char c :: nat) in 48 \<le> n \<and> n \<le> 57)"

definition digit_val :: "char \<Rightarrow> int" where
  "digit_val c = int (of_char c) - 48"

text \<open>
  \<open>digits acc prev s\<close>: \<open>prev\<close> says whether the previous character was a digit
  (an underscore must stand between two digits).
\<close>

fun digits :: "int \<Rightarrow> bool \<Rightarrow> string \<Rightarrow> int option" where
  "digits acc prev [] = (if prev then Some acc else None)"
| "digits acc prev (c # cs) =
     (if isdigit c then digits (10 * acc + digit_val c) True cs
      else if c = CHR ''_'' \<and> prev then
        (case cs of [] \<Rightarrow> None
         | d # _ \<Rightarrow> if isdigit d then digits acc False cs else None)
      else None)"

definition MAX_STR_DIGITS :: nat where
  "MAX_STR_DIGITS = 4300"

definition limited_digits :: "string \<Rightarrow> int option" where
  "limited_digits s =
     (if MAX_STR_DIGITS < length (filter isdigit s) then None else digits 0 False s)"

definition py_int :: "string \<Rightarrow> int option" where
  "py_int s =
     (case rev (dropWhile int_space (rev (dropWhile int_space s))) of
        [] \<Rightarrow> None
      | c # cs \<Rightarrow>
          if c = CHR ''-'' then map_option uminus (limited_digits cs)
          else if c = CHR ''+'' then limited_digits cs
          else limited_digits (c # cs))"

subsection \<open>\<^verbatim>\<open>call_graph_with_retry\<close>\<close>

text \<open>
  The constants of the module. The budget of retries and the number of an attempt are
  natural numbers; durations are integers, since a \<^verbatim>\<open>Retry-After\<close> header may
  hold a negative one.
\<close>

definition MAX_RETRIES :: nat where
  "MAX_RETRIES = 3"

definition BASE_DELAY :: int where
  "BASE_DELAY = 1"

definition backoff :: "nat \<Rightarrow> int" where
  "backoff attempt = BASE_DELAY * 2 ^ attempt"

text \<open>
  One iteration of \<^verbatim>\<open>for attempt in range(max_retries + 1)\<close> ends in one of
  three ways: the loop goes on to the next attempt (\<^verbatim>\<open>continue\<close>, or the end of
  the \<^verbatim>\<open>except\<close> block), the function returns, or an exception leaves it.
\<close>

datatype 'r step = Next world | Return "'r listing" world | Raise error world

text \<open>
  \<^verbatim>\<open>int(response.headers.get('Retry-After', BASE_DELAY * (2 ** attempt)))\<close>:
  the header is a string when present, the default is already an integer.
\<close>

definition retry_after_seconds :: "'r response \<Rightarrow> nat \<Rightarrow> error + int" where
  "retry_after_seconds r attempt =
     (case retry_after r of
        None \<Rightarrow> Inr (backoff attempt)
      | Some s \<Rightarrow> (case py_int s of None \<Rightarrow> Inl ValueError | Some n \<Rightarrow> Inr n))"

definition sleep_then_next :: "int \<Rightarrow> world \<Rightarrow> 'r step" where
  "sleep_then_next d w = (case sleep d w of Inl e \<Rightarrow> Raise e w | Inr w' \<Rightarrow> Next w')"

text \<open>
  The \<^verbatim>\<open>except requests.exceptions.RequestException\<close> block: other exceptions
  are not caught and leave the function.
\<close>

definition on_exception :: "nat \<Rightarrow> nat \<Rightarrow> error \<Rightarrow> world \<Rightarrow> 'r step" where
  "on_exception max_retries attempt e w =
     (if is_RequestException e then
        (if attempt = max_retries then Raise e w
         else sleep_then_next (backoff attempt) w)
      else Raise e w)"

definition attempt_body :: "'r net \<Rightarrow> string \<Rightarrow> nat \<Rightarrow> nat \<Rightarrow> world \<Rightarrow> 'r step" where
  "attempt_body net url max_retries attempt w =
     (case session_get net url w of
        (Raises e, w1) \<Rightarrow> on_exception max_retries attempt e w1
      | (Returns r, w1) \<Rightarrow>
          if status_code r = 429 then
            (case retry_after_seconds r attempt of
               Inl e \<Rightarrow> on_exception max_retries attempt e w1
             | Inr d \<Rightarrow> sleep_then_next d w1)
          else if status_code r \<ge> 500 then sleep_then_next (backoff attempt) w1
          else
            (case raise_for_status r of
               Inl e \<Rightarrow> on_exception max_retries attempt e w1
             | Inr _ \<Rightarrow>
                 (case json r of
                    Inl e \<Rightarrow> on_exception max_retries attempt e w1
                  | Inr d \<Rightarrow> Return d w1)))"

text \<open>
  The loop over the attempts. When the attempts are used up the Python function falls
  off its end and returns \<^verbatim>\<open>None\<close>: \<open>Inr None\<close>.
\<close>

fun attempts :: "'r net \<Rightarrow> string \<Rightarrow> nat \<Rightarrow> nat list \<Rightarrow> world
    \<Rightarrow> (error + 'r listing option) \<times> world" where
  "attempts net url max_retries [] w = (Inr None, w)"
| "attempts net url max_retries (attempt # rest) w =
     (case attempt_body net url max_retries attempt w of
        Next w' \<Rightarrow> attempts net url max_retries rest w'
      | Return d w' \<Rightarrow> (Inr (Some d), w')
      | Raise e w' \<Rightarrow> (Inl e, w'))"

definition call_graph_with_retry :: "'r net \<Rightarrow> string \<Rightarrow> nat \<Rightarrow> world
    \<Rightarrow> (error + 'r listing option) \<times> world" where
  "call_graph_with_retry net url max_retries w =
     attempts net url max_retries [0 ..< max_retries + 1] w"

subsection \<open>\<^verbatim>\<open>call_graph_paginated\<close>\<close>

text \<open>
  The paginator calls \<^verbatim>\<open>self.call_graph_with_retry\<close> once per page of the
  listing. It is written here over any such caller (the tests replace the method by a
  mock in the same way); the exporter runs it over \<open>call_graph_with_retry\<close> with the
  default budget. A caller that returned \<^verbatim>\<open>None\<close> makes
  \<^verbatim>\<open>data.get\<close> raise \<^verbatim>\<open>AttributeError\<close>.
\<close>

type_synonym ('r, 'w) caller = "string \<Rightarrow> 'w \<Rightarrow> (error + 'r listing option) \<times> 'w"

definition vals :: "'r listing \<Rightarrow> 'r list" where
  "vals d = (case value_field d of None \<Rightarrow> [] | Some xs \<Rightarrow> xs)"

text \<open>
  \<^verbatim>\<open>while "@odata.nextLink" in data\<close>: nothing bounds the number of pages, so the
  loop is a partial function and \<open>None\<close> stands for a listing that never ends.
\<close>

partial_function (option) next_pages :: "('r, 'w) caller \<Rightarrow> 'r listing \<Rightarrow> 'r list \<Rightarrow> 'w
    \<Rightarrow> ((error + 'r list) \<times> 'w) option" where
  "next_pages caller data results w =
     (case nextLink data of
        None \<Rightarrow> Some (Inr results, w)
      | Some link \<Rightarrow>
          (case caller link w of
             (Inl e, w') \<Rightarrow> Some (Inl e, w')
           | (Inr None, w') \<Rightarrow> Some (Inl AttributeError, w')
           | (Inr (Some d), w') \<Rightarrow> next_pages caller d (results @ vals d) w'))"

definition call_graph_paginated :: "('r, 'w) caller \<Rightarrow> string \<Rightarrow> 'w
    \<Rightarrow> ((error + 'r list) \<times> 'w) option" where
  "call_graph_paginated caller url w =
     (case caller url w of
        (Inl e, w') \<Rightarrow> Some (Inl e, w')
      | (Inr None, w') \<Rightarrow> Some (Inl AttributeError, w')
      | (Inr (Some d), w') \<Rightarrow> next_pages caller d (vals d) w')"

text \<open>
  \<open>graph_caller\<close> is the method as the paginator calls it, with the default budget.
  \<open>recording\<close> makes a caller that also records the URLs it is called with, as the
  mock of the test suite counts its calls.
\<close>

definition graph_caller :: "'r net \<Rightarrow> ('r, world) caller" where
  "graph_caller net url = call_graph_with_retry net url MAX_RETRIES"

definition recording :: "('r, 'w) caller \<Rightarrow> ('r, 'w \<times> string list) caller" where
  "recording caller url wl =
     (case caller url (fst wl) of (res, w') \<Rightarrow> (res, (w', snd wl @ [url])))"

subsection \<open>Names of directories and files\<close>

text \<open>
  \<^verbatim>\<open>re.sub(r'[<>:"/\\|?*]', '_', name)\<close>: each of the nine characters becomes
  an underscore.
\<close>

definition illegal :: "char \<Rightarrow> bool" where
  "illegal c = (c \<in> set [CHR ''<'', CHR ''>'', CHR '':'', CHR 0x22, CHR ''/'', CHR 0x5C,
     CHR ''|'', CHR ''?'', CHR ''*''])"

definition sanitize :: "string \<Rightarrow> string" where
  "sanitize name = map (\<lambda>c. if illegal c then CHR ''_'' else c) name"

text \<open>A JSON object with string values, as a list of pairs; \<^verbatim>\<open>d.get(k, dflt)\<close>.\<close>

type_synonym pydict = "(string \<times> string) list"

definition dict_get :: "pydict \<Rightarrow> string \<Rightarrow> string \<Rightarrow> string" where
  "dict_get d k dflt = (case map_of d k of None \<Rightarrow> dflt | Some v \<Rightarrow> v)"

text \<open>
  \<^verbatim>\<open>str(parent / name)\<close> of pathlib on a POSIX system, with \<open>parent\<close> given as
  its string. A path is a root (nothing, one slash or two) and its parts: the pieces
  between slashes, without the empty ones and the dots. A name with a root replaces
  the parent; a path with neither root nor parts is written as a dot.
\<close>

fun split_slash :: "string \<Rightarrow> string list" where
  "split_slash [] = [[]]"
| "split_slash (c # cs) =
     (if c = CHR ''/'' then [] # split_slash cs
      else (case split_slash cs of [] \<Rightarrow> [[c]] | p # ps \<Rightarrow> (c # p) # ps))"

definition path_parts :: "string \<Rightarrow> string list" where
  "path_parts s = filter (\<lambda>p. p \<noteq> [] \<and> p \<noteq> ''.'') (split_slash s)"

definition path_root :: "string \<Rightarrow> string" where
  "path_root s =
     (if prefix ''//'' s \<and> \<not> prefix ''///'' s then ''//''
      else if prefix ''/'' s then ''/'' else [])"

fun join_slash :: "string list \<Rightarrow> string" where
  "join_slash [] = []"
| "join_slash [p] = p"
| "join_slash (p # q # ps) = p @ CHR ''/'' # join_slash (q # ps)"

definition path_str :: "string \<Rightarrow> string list \<Rightarrow> string" where
  "path_str root parts = (let s = root @ join_slash parts in if s = [] then ''.'' else s)"

definition path_join :: "string \<Rightarrow> string \<Rightarrow> string" where
  "path_join parent name =
     (if path_root name \<noteq> [] then path_str (path_root name) (path_parts name)
      else path_str (path_root parent) (path_parts parent @ path_parts name))"

text \<open>
  The page's file name in \<^verbatim>\<open>export_page\<close>: the sanitized title, or
  \<^verbatim>\<open>f"page_{page_id[:8]}"\<close> when nothing but whitespace is left of it.
\<close>

definition safe_title :: "string \<Rightarrow> string \<Rightarrow> string" where
  "safe_title page_title page_id =
     (let s = sanitize page_title in if strip s = [] then ''page_'' @ take 8 page_id else s)"

text \<open>
  The directories of \<^verbatim>\<open>export_notebooks\<close>: the sanitized display name, with no
  fallback.
\<close>

definition notebook_path :: "string \<Rightarrow> pydict \<Rightarrow> string" where
  "notebook_path output_dir notebook =
     path_join output_dir (sanitize (dict_get notebook ''displayName'' ''Untitled''))"

definition section_path :: "string \<Rightarrow> pydict \<Rightarrow> string" where
  "section_path notebook_dir section =
     path_join notebook_dir (sanitize (dict_get section ''displayName'' ''Untitled''))"

subsection \<open>Finding the images: \<^verbatim>\<open>re.finditer\<close>\<close>

text \<open>
  The pattern is \<^verbatim>\<open><img[^>]+src=["\']([^"\']+)["\'][^>]*>\<close>. Python matches it by
  backtracking, every repetition greedy. After \<^verbatim>\<open>src=\<close> nothing is left to
  choose: the group is the longest run without a quote and must end at a quote, the
  rest is the longest run without \<^verbatim>\<open>>\<close> and must end at one. \<open>src_tail\<close>
  returns the group and the text after the match.
\<close>

definition quote :: "char \<Rightarrow> bool" where
  "quote c = (c = CHR 0x22 \<or> c = CHR 0x27)"

definition src_tail :: "string \<Rightarrow> (string \<times> string) option" where
  "src_tail s =
     (case s of
        [] \<Rightarrow> None
      | q # t \<Rightarrow>
          if quote q then
            (let url = takeWhile (\<lambda>c. \<not> quote c) t in
             case dropWhile (\<lambda>c. \<not> quote c) t of
               [] \<Rightarrow> None
             | _ # t' \<Rightarrow>
                 if url = [] then None
                 else (case dropWhile (\<lambda>c. c \<noteq> CHR ''>'') t' of
                         [] \<Rightarrow> None
                       | _ # rest \<Rightarrow> Some (url, rest)))
          else None)"

text \<open>
  \<^verbatim>\<open>[^>]+\<close> first takes every character up to the next \<^verbatim>\<open>>\<close> and gives
  them back one at a time until \<^verbatim>\<open>src=\<close> and the rest match: \<open>k\<close> is the
  number of characters it keeps, at least one.
\<close>

fun give_back :: "nat \<Rightarrow> string \<Rightarrow> (string \<times> string) option" where
  "give_back 0 t = None"
| "give_back (Suc k) t =
     (case (if prefix ''src='' (drop (Suc k) t) then src_tail (drop (Suc k + 4) t) else None) of
        Some m \<Rightarrow> Some m
      | None \<Rightarrow> give_back k t)"

definition match_img :: "string \<Rightarrow> (string \<times> string) option" where
  "match_img s =
     (if prefix ''<img'' s
      then give_back (length (takeWhile (\<lambda>c. c \<noteq> CHR ''>'') (drop 4 s))) (drop 4 s)
      else None)"

text \<open>
  \<^verbatim>\<open>[m.group(1) for m in re.finditer(img_pattern, html)]\<close>: the matches from left
  to right, each search starting where the previous match ended. The guard on the
  length is true of every match (a match is never empty).
\<close>

function img_urls :: "string \<Rightarrow> string list" where
  "img_urls [] = []"
| "img_urls (c # cs) =
     (case match_img (c # cs) of
        Some (url, rest) \<Rightarrow>
          if length rest < length (c # cs) then url # img_urls rest else url # img_urls cs
      | None \<Rightarrow> img_urls cs)"
  by pat_completeness auto
termination
  by (relation "measure length") auto

subsection \<open>\<^verbatim>\<open>str.replace\<close> and counting occurrences\<close>

fun replace_str :: "string \<Rightarrow> string \<Rightarrow> string \<Rightarrow> string" where
  "replace_str old new [] = (if old = [] then new else [])"
| "replace_str old new (c # cs) =
     (if old = [] then new @ concat (map (\<lambda>x. x # new) (c # cs))
      else if prefix old (c # cs) then new @ replace_str old new (drop (length old) (c # cs))
      else c # replace_str old new cs)"

text \<open>The number of positions of \<open>s\<close> at which \<open>p\<close> occurs.\<close>

fun occurrences :: "string \<Rightarrow> string \<Rightarrow> nat" where
  "occurrences p [] = 0"
| "occurrences p (c # cs) = (if prefix p (c # cs) then 1 else 0) + occurrences p cs"

subsection \<open>What the exporter is given\<close>

text \<open>
  Besides the network: whether a path can be opened for writing, and the library
  functions the code calls and this development does not look into, taken as
  parameters: \<^verbatim>\<open>os.path.basename(urlparse(url).path)\<close>, the built-in
  \<^verbatim>\<open>hash\<close>, \<^verbatim>\<open>HTML2Text().handle\<close> (which may raise) and the
  formatted time of \<^verbatim>\<open>time.strftime\<close>.
\<close>

record 'r env =
  network :: "'r net"
  writable :: "string \<Rightarrow> bool"
  url_basename :: "string \<Rightarrow> string"
  py_hash :: "string \<Rightarrow> int"
  html2text :: "string \<Rightarrow> error + string"
  strftime :: string

subsection \<open>\<^verbatim>\<open>download_media\<close>\<close>

text \<open>\<^verbatim>\<open>str(n)\<close> of a natural number, \<^verbatim>\<open>p in s\<close> and \<^verbatim>\<open>s.split('/')[-1]\<close>.\<close>

fun decimal :: "nat \<Rightarrow> string" where
  "decimal n = (if n < 10 then [char_of (48 + n)] else decimal (n div 10) @ [char_of (48 + n mod 10)])"

declare decimal.simps [simp del]

definition contains :: "string \<Rightarrow> string \<Rightarrow> bool" where
  "contains p s = (p = [] \<or> 0 < occurrences p s)"

definition after_last_slash :: "string \<Rightarrow> string" where
  "after_last_slash s = rev (takeWhile (\<lambda>c. c \<noteq> CHR ''/'') (rev s))"

definition media_filename :: "'r env \<Rightarrow> string \<Rightarrow> 'r response \<Rightarrow> string" where
  "media_filename env media_url r =
     (let filename = url_basename env media_url in
      if filename = [] \<or> CHR ''.'' \<notin> set filename then
        (let ct = (case content_type r of None \<Rightarrow> [] | Some c \<Rightarrow> c);
             h = decimal (nat (py_hash env media_url mod 10000))
         in if contains ''image/'' ct then ''image_'' @ h @ ''.'' @ after_last_slash ct
            else ''media_'' @ h @ ''.bin'')
      else filename)"

text \<open>
  The \<^verbatim>\<open>try\<close> block. The file is opened, every chunk that arrives is written,
  and a stream that breaks raises after that.
\<close>

definition download_media_try :: "'r env \<Rightarrow> string \<Rightarrow> string \<Rightarrow> world \<Rightarrow> (error + string) \<times> world" where
  "download_media_try env media_url output_path w =
     (case session_get (network env) media_url w of
        (Raises e, w1) \<Rightarrow> (Inl e, w1)
      | (Returns r, w1) \<Rightarrow>
          (case raise_for_status r of
             Inl e \<Rightarrow> (Inl e, w1)
           | Inr _ \<Rightarrow>
               (let filename = media_filename env media_url r;
                    file_path = path_join output_path filename
                in if \<not> writable env file_path then (Inl OSError, w1)
                   else
                     (let w2 = w1\<lparr>written := written w1 @ [(file_path, concat (chunks r))]\<rparr>
                      in case stream_error r of
                           Some e \<Rightarrow> (Inl e, w2)
                         | None \<Rightarrow> (Inr filename, w2)))))"

text \<open>\<^verbatim>\<open>except Exception\<close>: whatever was raised, the result is the empty string.\<close>

definition download_media :: "'r env \<Rightarrow> string \<Rightarrow> string \<Rightarrow> world \<Rightarrow> string \<times> world" where
  "download_media env media_url output_path w =
     (case download_media_try env media_url output_path w of
        (Inl e, w') \<Rightarrow> ([], w')
      | (Inr filename, w') \<Rightarrow> (filename, w'))"

subsection \<open>\<^verbatim>\<open>process_html_content\<close>\<close>

text \<open>
  The loop over the matches. The matches are those of the HTML as it was given: the
  iterator keeps the original string while \<^verbatim>\<open>html\<close> is rebound.
\<close>

fun substitute :: "'r env \<Rightarrow> string \<Rightarrow> string list \<Rightarrow> string \<Rightarrow> world \<Rightarrow> string \<times> world" where
  "substitute env output_path [] html w = (html, w)"
| "substitute env output_path (img_url # others) html w =
     (if prefix ''http'' img_url then
        (case download_media env img_url output_path w of
           (filename, w') \<Rightarrow>
             if filename \<noteq> [] then substitute env output_path others (replace_str img_url filename html) w'
             else substitute env output_path others html w')
      else substitute env output_path others html w)"

text \<open>
  \<^verbatim>\<open>media_files[img_url] = filename\<close>: the assignments the same loop makes, in
  order, one for each download that succeeded.
\<close>

fun media_files :: "'r env \<Rightarrow> string \<Rightarrow> string list \<Rightarrow> world \<Rightarrow> (string \<times> string) list" where
  "media_files env output_path [] w = []"
| "media_files env output_path (img_url # others) w =
     (if prefix ''http'' img_url then
        (case download_media env img_url output_path w of
           (filename, w') \<Rightarrow>
             if filename \<noteq> [] then (img_url, filename) # media_files env output_path others w'
             else media_files env output_path others w')
      else media_files env output_path others w)"

definition process_html_content :: "'r env \<Rightarrow> string \<Rightarrow> string \<Rightarrow> world \<Rightarrow> (error + string) \<times> world" where
  "process_html_content env html output_path w =
     (case substitute env output_path (img_urls html) html w of
        (html', w') \<Rightarrow> (html2text env html', w'))"

subsection \<open>\<^verbatim>\<open>export_page\<close> and the loop over the pages\<close>

definition file_text :: "'r env \<Rightarrow> string \<Rightarrow> string \<Rightarrow> string" where
  "file_text env page_title markdown =
     ''# '' @ page_title @ [CHR 0x0A, CHR 0x0A]
     @ ''*Exported from OneNote on '' @ strftime env @ ''*'' @ [CHR 0x0A, CHR 0x0A]
     @ ''---'' @ [CHR 0x0A, CHR 0x0A]
     @ markdown"

definition content_url :: "string \<Rightarrow> string" where
  "content_url page_id = ''https://graph.microsoft.com/v1.0/me/onenote/pages/'' @ page_id @ ''/content''"

text \<open>The \<^verbatim>\<open>try\<close> block; \<^verbatim>\<open>page['id']\<close> raises \<^verbatim>\<open>KeyError\<close> without the key.\<close>

definition export_page_try :: "'r env \<Rightarrow> pydict \<Rightarrow> string \<Rightarrow> world \<Rightarrow> (error + unit) \<times> world" where
  "export_page_try env page section_dir w =
     (case map_of page ''id'' of
        None \<Rightarrow> (Inl KeyError, w)
      | Some page_id \<Rightarrow>
          (case session_get (network env) (content_url page_id) w of
             (Raises e, w1) \<Rightarrow> (Inl e, w1)
           | (Returns r, w1) \<Rightarrow>
               (case raise_for_status r of
                  Inl e \<Rightarrow> (Inl e, w1)
                | Inr _ \<Rightarrow>
                    (case process_html_content env (body_text r) section_dir w1 of
                       (Inl e, w2) \<Rightarrow> (Inl e, w2)
                     | (Inr markdown, w2) \<Rightarrow>
                         (let page_title = dict_get page ''title'' ''Untitled'';
                              md_file = path_join section_dir (safe_title page_title page_id @ ''.md'')
                          in if \<not> writable env md_file then (Inl OSError, w2)
                             else (Inr (), w2\<lparr>written := written w2 @ [(md_file, file_text env page_title markdown)],
                                               logged := logged w2 @ [Exported page_title]\<rparr>))))))"

text \<open>\<^verbatim>\<open>except Exception\<close>: the failure is logged and the function returns.\<close>

definition export_page :: "'r env \<Rightarrow> pydict \<Rightarrow> string \<Rightarrow> world \<Rightarrow> world" where
  "export_page env page section_dir w =
     (case export_page_try env page section_dir w of
        (Inl e, w') \<Rightarrow> w'\<lparr>logged := logged w' @ [Failed (dict_get page ''title'' ''Unknown'') e]\<rparr>
      | (Inr _, w') \<Rightarrow> w')"

text \<open>\<^verbatim>\<open>for page in pages: self.export_page(page, section_path)\<close>\<close>

fun export_pages :: "'r env \<Rightarrow> pydict list \<Rightarrow> string \<Rightarrow> world \<Rightarrow> world" where
  "export_pages env [] section_dir w = w"
| "export_pages env (page # pages) section_dir w =
     export_pages env pages section_dir (export_page env page section_dir w)"

subsection \<open>Sample inputs\<close>

text \<open>
  The world before anything happened (on a machine that accepts a sleep of nine
  billion seconds), a response with the given status,
  \<^verbatim>\<open>Retry-After\<close> header, body and parsed JSON, a network that always gives the
  same response, and a network that plays a list of outcomes (a connection failure
  when the list is used up).
\<close>

definition w0 :: world where
  "w0 = \<lparr>requests = [], slept = [], written = [], logged = [], longest_sleep = 9000000000\<rparr>"

definition reply :: "int \<Rightarrow> string option \<Rightarrow> string \<Rightarrow> error + 'r listing \<Rightarrow> 'r response" where
  "reply status ra body js =
     \<lparr>status_code = status, retry_after = ra, content_type = None, body_text = body,
      json = js, chunks = [], stream_error = None\<rparr>"

definition always :: "'r response \<Rightarrow> 'r net" where
  "always r n u = Returns r"

definition script :: "'r get_outcome list \<Rightarrow> 'r net" where
  "script outcomes n u = (if n < length outcomes then outcomes ! n else Raises RequestException)"

definition notebooks_url :: string where
  "notebooks_url = ''https://graph.microsoft.com/v1.0/me/onenote/notebooks''"

text \<open>A listing of two pages, as in the test of the paginator.\<close>

definition page1 :: "pydict listing" where
  "page1 = \<lparr>value_field = Some [[(''id'', ''1''), (''name'', ''item1'')]],
            nextLink = Some ''https://graph.microsoft.com/v1.0/test?$skip=1''\<rparr>"

definition page2 :: "pydict listing" where
  "page2 = \<lparr>value_field = Some [[(''id'', ''2''), (''name'', ''item2'')]], nextLink = None\<rparr>"

definition two_pages :: "pydict net" where
  "two_pages = script [Returns (reply 200 None [] (Inr page1)), Returns (reply 200 None [] (Inr page2))]"

text \<open>
  An exporter over a given network: every path can be written, the base name of a URL
  is what follows its last slash, the hash of a URL is its length, and the converter
  returns the HTML as it is but raises on an empty document.
\<close>

definition stub_html2text :: "string \<Rightarrow> error + string" where
  "stub_html2text html = (if html = [] then Inl OtherException else Inr html)"

definition sample_env :: "'r net \<Rightarrow> 'r env" where
  "sample_env n =
     \<lparr>network = n, writable = (\<lambda>path. True), url_basename = after_last_slash,
      py_hash = (\<lambda>url. int (length url)), html2text = stub_html2text,
      strftime = ''2024-01-01 00:00:00''\<rparr>"

text \<open>A downloaded image, and a page body that refers to it twice.\<close>

definition image_reply :: "'r response" where
  "image_reply =
     \<lparr>status_code = 200, retry_after = None, content_type = Some ''image/png'', body_text = [],
      json = Inl ValueError, chunks = [''PNG''], stream_error = None\<rparr>"

definition image_url :: string where
  "image_url = ''https://ex.com/a.png''"

definition twice_html :: string where
  "twice_html = ''<img src='https://ex.com/a.png'><p>x</p><img src='https://ex.com/a.png'>''"

text \<open>
  A page body with two images, the URL of the second being the URL of the first with a
  query added.
\<close>

definition versioned_url :: string where
  "versioned_url = ''https://ex.com/a.png?v=2''"

definition mixed_html :: string where
  "mixed_html = ''<img src='https://ex.com/a.png'><img src='https://ex.com/a.png?v=2'>''"

text \<open>
  Two pages of a section: the body of the first is empty, so its conversion raises;
  the second has a body.
\<close>

definition page_A :: pydict where
  "page_A = [(''id'', ''1''), (''title'', ''A'')]"

definition page_B :: pydict where
  "page_B = [(''id'', ''2''), (''title'', ''B: plan'')]"

definition two_bodies :: "unit net" where
  "two_bodies = script [Returns (reply 200 None [] (Inl ValueError)),
                        Returns (reply 200 None ''<h1>B</h1>'' (Inl ValueError))]"

section \<open>Properties of the retrying caller\<close>

subsection \<open>Sleeping\<close>

lemma backoff_nonneg: "0 \<le> backoff a"
  by (simp add: backoff_def BASE_DELAY_def)

lemma sleep_ok: "can_sleep w d \<Longrightarrow> sleep d w = Inr (w\<lparr>slept := slept w @ [d]\<rparr>)"
  by (simp add: sleep_def can_sleep_def)

lemma sleep_refused:
  "\<not> can_sleep w d \<Longrightarrow> 0 \<le> d \<Longrightarrow>
   sleep d w = Inl (if MAX_SLEEP < d then OverflowError else OSError)"
  by (auto simp: sleep_def can_sleep_def)

lemma can_sleep_requests [simp]: "can_sleep (w\<lparr>requests := x\<rparr>) d = can_sleep w d"
  by (simp add: can_sleep_def)

lemma can_sleep_slept [simp]: "can_sleep (w\<lparr>slept := x\<rparr>) d = can_sleep w d"
  by (simp add: can_sleep_def)

lemma backoff_mono: "a \<le> b \<Longrightarrow> backoff a \<le> backoff b"
  by (simp add: backoff_def BASE_DELAY_def power_increasing)

lemma can_sleep_backoff_mono:
  "can_sleep w (backoff b) \<Longrightarrow> a \<le> b \<Longrightarrow> can_sleep w (backoff a)"
  using backoff_mono [of a b] backoff_nonneg [of a] by (simp add: can_sleep_def)

subsection \<open>One attempt, by kind of response\<close>

lemma attempt_body_server_error:
  assumes "net (length (requests w)) url = Returns r" and "500 \<le> status_code r"
  shows "attempt_body net url M a w =
         (if can_sleep w (backoff a)
          then Next (w\<lparr>requests := requests w @ [url], slept := slept w @ [backoff a]\<rparr>)
          else Raise (if MAX_SLEEP < backoff a then OverflowError else OSError)
                 (w\<lparr>requests := requests w @ [url]\<rparr>))"
  using assms backoff_nonneg [of a]
  by (simp add: attempt_body_def session_get_def sleep_then_next_def sleep_ok sleep_refused)

lemma attempts_server_errors:
  assumes "\<And>n u. \<exists>r. net n u = Returns r \<and> 500 \<le> status_code r"
  shows "\<forall>a\<in>set as. can_sleep w (backoff a) \<Longrightarrow>
         attempts net url M as w =
         (Inr None, w\<lparr>requests := requests w @ replicate (length as) url,
                        slept := slept w @ map backoff as\<rparr>)"
proof (induction as arbitrary: w)
  case Nil
  show ?case by simp
next
  case (Cons a as)
  from assms obtain r where r: "net (length (requests w)) url = Returns r" "500 \<le> status_code r"
    by blast
  let ?w' = "w\<lparr>requests := requests w @ [url], slept := slept w @ [backoff a]\<rparr>"
  have "attempt_body net url M a w = Next ?w'"
    using attempt_body_server_error [of net w url r M a] r Cons.prems by simp
  moreover have "\<forall>b\<in>set as. can_sleep ?w' (backoff b)"
    using Cons.prems by simp
  ultimately show ?case
    using Cons.IH [of ?w'] by (simp add: replicate_app_Cons_same)
qed

lemma attempts_server_errors_refused:
  assumes "\<And>n u. \<exists>r. net n u = Returns r \<and> 500 \<le> status_code r"
  shows "\<exists>a\<in>set as. \<not> can_sleep w (backoff a) \<Longrightarrow>
         fst (attempts net url M as w) = Inl OverflowError
         \<or> fst (attempts net url M as w) = Inl OSError"
proof (induction as arbitrary: w)
  case Nil
  then show ?case by simp
next
  case (Cons a as)
  from assms obtain r where r: "net (length (requests w)) url = Returns r" "500 \<le> status_code r"
    by blast
  note body = attempt_body_server_error [of net w url r M a, OF r]
  show ?case
  proof (cases "can_sleep w (backoff a)")
    case True
    let ?w' = "w\<lparr>requests := requests w @ [url], slept := slept w @ [backoff a]\<rparr>"
    from True Cons.prems have "\<exists>b\<in>set as. \<not> can_sleep ?w' (backoff b)" by auto
    then show ?thesis
      using Cons.IH [of ?w'] body True by simp
  next
    case False
    then show ?thesis using body by simp
  qed
qed

lemma attempt_body_client_error:
  assumes "net (length (requests w)) url = Returns r"
    and "400 \<le> status_code r" and "status_code r < 500" and "status_code r \<noteq> 429"
  shows "attempt_body net url M a w =
         (if a = M
          then Raise (HTTPError (status_code r) (body_text r)) (w\<lparr>requests := requests w @ [url]\<rparr>)
          else if can_sleep w (backoff a)
          then Next (w\<lparr>requests := requests w @ [url], slept := slept w @ [backoff a]\<rparr>)
          else Raise (if MAX_SLEEP < backoff a then OverflowError else OSError)
                 (w\<lparr>requests := requests w @ [url]\<rparr>))"
  using assms backoff_nonneg [of a]
  by (simp add: attempt_body_def session_get_def raise_for_status_def on_exception_def
      sleep_then_next_def sleep_ok sleep_refused)

lemma attempt_body_429_header:
  assumes "net (length (requests w)) url = Returns r" and "status_code r = 429"
    and "retry_after r = Some s" and "py_int s = Some n" and "can_sleep w n"
  shows "attempt_body net url M a w =
         Next (w\<lparr>requests := requests w @ [url], slept := slept w @ [n]\<rparr>)"
  using assms
  by (simp add: attempt_body_def session_get_def retry_after_seconds_def
      sleep_then_next_def sleep_ok)

lemma attempt_body_429_absent:
  assumes "net (length (requests w)) url = Returns r" and "status_code r = 429"
    and "retry_after r = None" and "can_sleep w (backoff a)"
  shows "attempt_body net url M a w =
         Next (w\<lparr>requests := requests w @ [url], slept := slept w @ [backoff a]\<rparr>)"
  using assms
  by (simp add: attempt_body_def session_get_def retry_after_seconds_def
      sleep_then_next_def sleep_ok)

lemma attempt_body_429_bad_header:
  assumes "net (length (requests w)) url = Returns r" and "status_code r = 429"
    and "retry_after r = Some s" and "py_int s = None"
  shows "attempt_body net url M a w = Raise ValueError (w\<lparr>requests := requests w @ [url]\<rparr>)"
  using assms
  by (simp add: attempt_body_def session_get_def retry_after_seconds_def on_exception_def)

subsection \<open>The logs only grow\<close>

lemma sleep_then_next_requests:
  "(sleep_then_next d w :: 'r step) = Next w' \<or> (sleep_then_next d w :: 'r step) = Return x w'
     \<or> (sleep_then_next d w :: 'r step) = Raise e w' \<Longrightarrow> requests w' = requests w"
  by (auto simp: sleep_then_next_def sleep_def split: if_splits)

lemma on_exception_requests:
  "(on_exception M a e0 w :: 'r step) = Next w' \<or> (on_exception M a e0 w :: 'r step) = Return x w'
     \<or> (on_exception M a e0 w :: 'r step) = Raise e w' \<Longrightarrow> requests w' = requests w"
  using sleep_then_next_requests [of "backoff a" w w' x e]
  by (auto simp: on_exception_def split: if_splits)

lemma attempt_body_requests:
  assumes "attempt_body net url M a w = Next w' \<or> attempt_body net url M a w = Return x w'
     \<or> attempt_body net url M a w = Raise e w'"
  shows "requests w' = requests w @ [url]"
proof (cases "net (length (requests w)) url")
  case (Raises e0)
  with assms show ?thesis
    using on_exception_requests [of M a e0 "w\<lparr>requests := requests w @ [url]\<rparr>" w' x e]
    by (simp add: attempt_body_def session_get_def)
next
  case (Returns r)
  let ?w1 = "w\<lparr>requests := requests w @ [url]\<rparr>"
  from assms Returns show ?thesis
    using on_exception_requests [of M a _ ?w1 w' x e] sleep_then_next_requests [of _ ?w1 w' x e]
    by (auto simp: attempt_body_def session_get_def split: if_splits sum.splits)
qed

lemma attempts_requests_le:
  "length (requests (snd (attempts net url M as w))) \<le> length (requests w) + length as"
proof (induction as arbitrary: w)
  case Nil
  show ?case by simp
next
  case (Cons a as)
  show ?case
  proof (cases "attempt_body net url M a w")
    case (Next w')
    then have "requests w' = requests w @ [url]"
      using attempt_body_requests [of net url M a w w'] by simp
    with Cons.IH [of w'] Next show ?thesis by simp
  next
    case (Return d w')
    then have "requests w' = requests w @ [url]"
      using attempt_body_requests [of net url M a w w'] by simp
    with Return show ?thesis by simp
  next
    case (Raise e w')
    then have "requests w' = requests w @ [url]"
      using attempt_body_requests [of net url M a w w'] by simp
    with Raise show ?thesis by simp
  qed
qed

lemma sleep_then_next_slept:
  "(sleep_then_next d w :: 'r step) = Next w' \<or> (sleep_then_next d w :: 'r step) = Return x w'
     \<or> (sleep_then_next d w :: 'r step) = Raise e w' \<Longrightarrow> prefix (slept w) (slept w')"
  by (auto simp: sleep_then_next_def sleep_def split: if_splits)

lemma on_exception_slept:
  "(on_exception M a e0 w :: 'r step) = Next w' \<or> (on_exception M a e0 w :: 'r step) = Return x w'
     \<or> (on_exception M a e0 w :: 'r step) = Raise e w' \<Longrightarrow> prefix (slept w) (slept w')"
  using sleep_then_next_slept [of "backoff a" w w' x e]
  by (auto simp: on_exception_def split: if_splits)

lemma attempt_body_slept:
  assumes "attempt_body net url M a w = Next w' \<or> attempt_body net url M a w = Return x w'
     \<or> attempt_body net url M a w = Raise e w'"
  shows "prefix (slept w) (slept w')"
proof (cases "net (length (requests w)) url")
  case (Raises e0)
  with assms show ?thesis
    using on_exception_slept [of M a e0 "w\<lparr>requests := requests w @ [url]\<rparr>" w' x e]
    by (simp add: attempt_body_def session_get_def)
next
  case (Returns r)
  let ?w1 = "w\<lparr>requests := requests w @ [url]\<rparr>"
  from assms Returns show ?thesis
    using on_exception_slept [of M a _ ?w1 w' x e] sleep_then_next_slept [of _ ?w1 w' x e]
    by (auto simp: attempt_body_def session_get_def split: if_splits sum.splits)
qed

lemma attempts_slept: "prefix (slept w) (slept (snd (attempts net url M as w)))"
proof (induction as arbitrary: w)
  case Nil
  show ?case by simp
next
  case (Cons a as)
  show ?case
  proof (cases "attempt_body net url M a w")
    case (Next w')
    then have "prefix (slept w) (slept w')"
      using attempt_body_slept [of net url M a w w'] by simp
    with Cons.IH [of w'] Next show ?thesis by (auto intro: prefix_order.trans)
  next
    case (Return d w')
    then show ?thesis using attempt_body_slept [of net url M a w w'] by simp
  next
    case (Raise e w')
    then show ?thesis using attempt_body_slept [of net url M a w w'] by simp
  qed
qed

lemma attempts_requests_prefix: "prefix (requests w) (requests (snd (attempts net url M as w)))"
proof (induction as arbitrary: w)
  case Nil
  show ?case by simp
next
  case (Cons a as)
  show ?case
  proof (cases "attempt_body net url M a w")
    case (Next w')
    then have "requests w' = requests w @ [url]"
      using attempt_body_requests [of net url M a w w'] by simp
    with Cons.IH [of w'] Next show ?thesis by (auto dest: append_prefixD)
  next
    case (Return d w')
    then show ?thesis using attempt_body_requests [of net url M a w w'] by simp
  next
    case (Raise e w')
    then show ?thesis using attempt_body_requests [of net url M a w w'] by simp
  qed
qed

lemma attempts_first_request:
  "prefix (requests w @ [url]) (requests (snd (attempts net url M (a # as) w)))"
proof (cases "attempt_body net url M a w")
  case (Next w')
  then have "requests w' = requests w @ [url]"
    using attempt_body_requests [of net url M a w w'] by simp
  with attempts_requests_prefix [of w' net url M as] Next show ?thesis by simp
next
  case (Return d w')
  then show ?thesis using attempt_body_requests [of net url M a w w'] by simp
next
  case (Raise e w')
  then show ?thesis using attempt_body_requests [of net url M a w w'] by simp
qed

subsection \<open>The decimal numeral of a number is read back by \<open>py_int\<close>\<close>

lemma decimal_unfold:
  "decimal n = (if n < 10 then [char_of (48 + n)] else decimal (n div 10) @ [char_of (48 + n mod 10)])"
  by (rule decimal.simps)

lemma isdigit_char_of: "k < 10 \<Longrightarrow> isdigit (char_of (48 + k))" for k :: nat
  by (simp add: isdigit_def Let_def)

lemma digit_val_char_of: "k < 10 \<Longrightarrow> digit_val (char_of (48 + k)) = int k" for k :: nat
  by (simp add: digit_val_def)

lemma decimal_isdigit: "\<forall>c\<in>set (decimal n). isdigit c"
proof (induction n rule: decimal.induct)
  case (1 n)
  show ?case
  proof (cases "n < 10")
    case True
    then show ?thesis by (subst decimal_unfold) (simp add: isdigit_char_of)
  next
    case False
    then show ?thesis
      using "1.IH" by (subst decimal_unfold) (simp add: isdigit_char_of)
  qed
qed

lemma decimal_not_Nil: "decimal n \<noteq> []"
  by (subst decimal_unfold) simp

lemma decimal_length: "n < 10 ^ k \<Longrightarrow> 0 < k \<Longrightarrow> length (decimal n) \<le> k"
proof (induction n arbitrary: k rule: decimal.induct)
  case (1 n)
  show ?case
  proof (cases "n < 10")
    case True
    then show ?thesis using "1.prems" by (subst decimal_unfold) simp
  next
    case False
    obtain j where k: "k = Suc j" using "1.prems"(2) by (cases k) auto
    from False "1.prems"(1) k have j: "0 < j" by (cases j) auto
    from "1.prems"(1) k have "n div 10 < 10 ^ j"
      by (simp add: less_mult_imp_div_less mult.commute)
    then have "length (decimal (n div 10)) \<le> j"
      using "1.IH" [OF False _ j] by simp
    then show ?thesis using False k by (subst decimal_unfold) simp
  qed
qed

lemma digits_all_digits:
  "\<forall>c\<in>set xs. isdigit c \<Longrightarrow> xs \<noteq> [] \<or> prev \<Longrightarrow>
   digits acc prev xs = Some (foldl (\<lambda>a c. 10 * a + digit_val c) acc xs)"
  by (induction xs arbitrary: acc prev) auto

lemma foldl_decimal: "foldl (\<lambda>a c. 10 * a + digit_val c) 0 (decimal n) = int n"
proof (induction n rule: decimal.induct)
  case (1 n)
  show ?case
  proof (cases "n < 10")
    case True
    then show ?thesis by (subst decimal_unfold) (simp add: digit_val_char_of)
  next
    case False
    have "int n = 10 * int (n div 10) + int (n mod 10)"
      by (simp add: of_nat_div of_nat_mod)
    then show ?thesis
      using False "1.IH" by (subst decimal_unfold) (simp add: digit_val_char_of)
  qed
qed

lemma strip_nothing:
  assumes "xs \<noteq> []" and "\<not> P (hd xs)" and "\<not> P (last xs)"
  shows "rev (dropWhile P (rev (dropWhile P xs))) = xs"
proof -
  have a: "dropWhile P xs = xs" using assms(1,2) by (cases xs) auto
  have "dropWhile P (rev xs) = rev xs"
    using assms(1,3) by (cases "rev xs") (auto simp: last_rev [symmetric] hd_rev)
  with a show ?thesis by simp
qed

lemma isdigit_not_space: "isdigit c \<Longrightarrow> \<not> int_space c"
  by (auto simp: isdigit_def int_space_def Let_def)

lemma isdigit_not_sign: "isdigit c \<Longrightarrow> c \<noteq> CHR ''-'' \<and> c \<noteq> CHR ''+''"
  by (auto simp: isdigit_def)

lemma py_int_decimal:
  assumes "n < 10 ^ 10"
  shows "py_int (decimal n) = Some (int n)"
proof -
  let ?s = "decimal n"
  have ne: "?s \<noteq> []" by (rule decimal_not_Nil)
  have dig: "\<forall>c\<in>set ?s. isdigit c" by (rule decimal_isdigit)
  from ne dig have h: "isdigit (hd ?s)" and l: "isdigit (last ?s)" by auto
  have strip: "rev (dropWhile int_space (rev (dropWhile int_space ?s))) = ?s"
    using ne h l by (intro strip_nothing) (auto dest: isdigit_not_space)
  have "length ?s \<le> 10" using assms by (intro decimal_length) auto
  then have lim: "limited_digits ?s = Some (int n)"
    using dig ne by (simp add: limited_digits_def MAX_STR_DIGITS_def digits_all_digits foldl_decimal)
  obtain c cs where c: "?s = c # cs" using ne by (cases ?s) auto
  with h have "c \<noteq> CHR ''-''" "c \<noteq> CHR ''+''" by (auto dest: isdigit_not_sign)
  with c lim strip show ?thesis by (simp add: py_int_def)
qed

subsection \<open>Server errors\<close>

text \<open>
  Claim C1. When every response has a status of 500 or more, the caller sleeps
  \<open>BASE_DELAY * 2 ^ attempt\<close> after each attempt, for the attempts
  \<open>0, \<dots>, max_retries\<close>, and makes \<open>max_retries + 1\<close> requests. The claim goes on
  to say that it then raises; the code does not: the loop is used up, the function
  falls off its end and returns \<^verbatim>\<open>None\<close>, after one more sleep than there are
  retries. With the default budget that is four requests and sleeps of 1, 2, 4 and 8
  seconds. A budget so large that the clock refuses the last sleep (35 attempts or
  more) ends in the clock's error instead.
\<close>

theorem server_errors_return_None:
  assumes "\<And>n u. \<exists>r. net n u = Returns r \<and> 500 \<le> status_code r"
  shows "(can_sleep w (backoff max_retries) \<longrightarrow>
            call_graph_with_retry net url max_retries w =
              (Inr None, w\<lparr>requests := requests w @ replicate (max_retries + 1) url,
                             slept := slept w @ map backoff [0 ..< max_retries + 1]\<rparr>))
       \<and> (\<not> can_sleep w (backoff max_retries) \<longrightarrow>
            fst (call_graph_with_retry net url max_retries w) = Inl OverflowError
            \<or> fst (call_graph_with_retry net url max_retries w) = Inl OSError)"
proof (intro conjI impI)
  assume ok: "can_sleep w (backoff max_retries)"
  then have "\<forall>a\<in>set [0 ..< max_retries + 1]. can_sleep w (backoff a)"
    by (auto intro: can_sleep_backoff_mono)
  then show "call_graph_with_retry net url max_retries w =
      (Inr None, w\<lparr>requests := requests w @ replicate (max_retries + 1) url,
                     slept := slept w @ map backoff [0 ..< max_retries + 1]\<rparr>)"
    using attempts_server_errors [where net = net and as = "[0 ..< max_retries + 1]" and w = w
        and url = url and M = max_retries] assms
    by (simp add: call_graph_with_retry_def)
next
  assume "\<not> can_sleep w (backoff max_retries)"
  then have "\<exists>a\<in>set [0 ..< max_retries + 1]. \<not> can_sleep w (backoff a)"
    by auto
  then show "fst (call_graph_with_retry net url max_retries w) = Inl OverflowError
      \<or> fst (call_graph_with_retry net url max_retries w) = Inl OSError"
    using attempts_server_errors_refused [where net = net and as = "[0 ..< max_retries + 1]"
        and w = w and url = url and M = max_retries] assms
    by (simp add: call_graph_with_retry_def)
qed

theorem server_errors_return_None_witness:
  "call_graph_with_retry
     (always (reply 500 None ''Internal Server Error'' (Inl ValueError) :: unit response))
     notebooks_url MAX_RETRIES w0
   = (Inr None, \<lparr>requests = [notebooks_url, notebooks_url, notebooks_url, notebooks_url],
                 slept = [1, 2, 4, 8], written = [], logged = [], longest_sleep = 9000000000\<rparr>)"
proof -
  have h: "\<And>n u. \<exists>r. always (reply 500 None ''Internal Server Error'' (Inl ValueError) :: unit response) n u
              = Returns r \<and> 500 \<le> status_code r"
    by (simp add: always_def reply_def)
  have c: "can_sleep w0 (backoff MAX_RETRIES)"
    by (simp add: can_sleep_def w0_def backoff_def BASE_DELAY_def MAX_RETRIES_def MAX_SLEEP_def)
  show ?thesis
    using h c server_errors_return_None
      [of "always (reply 500 None ''Internal Server Error'' (Inl ValueError) :: unit response)"
        w0 MAX_RETRIES notebooks_url]
    by (simp add: MAX_RETRIES_def w0_def backoff_def BASE_DELAY_def upt_rec numeral_eq_Suc)
qed

subsection \<open>Client errors\<close>

lemma attempts_client_errors:
  assumes "\<And>n u. net n u = Returns r"
    and "400 \<le> status_code r" and "status_code r < 500" and "status_code r \<noteq> 429"
  shows "M \<notin> set as \<Longrightarrow> \<forall>a\<in>set as. can_sleep w (backoff a) \<Longrightarrow>
         attempts net url M (as @ [M]) w =
         (Inl (HTTPError (status_code r) (body_text r)),
          w\<lparr>requests := requests w @ replicate (length as + 1) url,
            slept := slept w @ map backoff as\<rparr>)"
proof (induction as arbitrary: w)
  case Nil
  have "net (length (requests w)) url = Returns r" by (rule assms(1))
  then have "attempt_body net url M M w
      = Raise (HTTPError (status_code r) (body_text r)) (w\<lparr>requests := requests w @ [url]\<rparr>)"
    using attempt_body_client_error [of net w url r M M] assms(2-4) by simp
  then show ?case by simp
next
  case (Cons a as)
  then have n: "a \<noteq> M" "M \<notin> set as" "can_sleep w (backoff a)" by auto
  let ?w' = "w\<lparr>requests := requests w @ [url], slept := slept w @ [backoff a]\<rparr>"
  have "net (length (requests w)) url = Returns r" by (rule assms(1))
  then have "attempt_body net url M a w = Next ?w'"
    using attempt_body_client_error [of net w url r M a] assms(2-4) n(1,3) by simp
  moreover have "\<forall>b\<in>set as. can_sleep ?w' (backoff b)"
    using Cons.prems(2) by simp
  ultimately show ?case
    using Cons.IH [OF n(2), of ?w'] by (simp add: replicate_app_Cons_same)
qed

text \<open>
  Claim C2 says that a status such as 404 fails at once, with no retry. It does not:
  \<^verbatim>\<open>raise_for_status\<close> is called inside the \<^verbatim>\<open>try\<close> block and its
  \<open>HTTPError\<close> is a \<open>RequestException\<close>, so the \<^verbatim>\<open>except\<close> block treats it as
  it treats a connection failure. With the default budget a 404 is requested four
  times, with sleeps of 1, 2 and 4 seconds, before the error is raised.
\<close>

theorem client_error_counterexample:
  "call_graph_with_retry
     (always (reply 404 None ''Not Found'' (Inl ValueError) :: unit response))
     notebooks_url MAX_RETRIES w0
   = (Inl (HTTPError 404 ''Not Found''),
      \<lparr>requests = [notebooks_url, notebooks_url, notebooks_url, notebooks_url],
       slept = [1, 2, 4], written = [], logged = [], longest_sleep = 9000000000\<rparr>)
   \<and> call_graph_with_retry
     (always (reply 404 None ''Not Found'' (Inl ValueError) :: unit response))
     notebooks_url MAX_RETRIES w0
   \<noteq> (Inl (HTTPError 404 ''Not Found''),
      \<lparr>requests = [notebooks_url], slept = [], written = [], logged = [], longest_sleep = 9000000000\<rparr>)"
  by (simp add: call_graph_with_retry_def MAX_RETRIES_def upt_rec w0_def always_def reply_def
      attempt_body_def session_get_def raise_for_status_def on_exception_def
      sleep_then_next_def sleep_def MAX_SLEEP_def backoff_def BASE_DELAY_def notebooks_url_def)

text \<open>
  Claim C2 as amended. A response with a status from 400 to 499 other than 429 makes
  the caller raise the \<open>HTTPError\<close> with the status code and the body only on the
  last attempt (\<open>attempt = max_retries\<close>); on an earlier attempt it sleeps
  \<open>BASE_DELAY * 2 ^ attempt\<close> and goes on to the next attempt (or raises the clock's
  error, should the clock refuse that sleep). When every request gets that response
  and the clock accepts the sleeps, the error is raised after \<open>max_retries + 1\<close>
  requests and \<open>max_retries\<close> sleeps.
\<close>

theorem client_error_retried:
  assumes "net (length (requests w)) url = Returns r"
    and "400 \<le> status_code r" and "status_code r < 500" and "status_code r \<noteq> 429"
  shows "attempts net url max_retries (attempt # rest) w =
         (if attempt = max_retries
          then (Inl (HTTPError (status_code r) (body_text r)), w\<lparr>requests := requests w @ [url]\<rparr>)
          else if can_sleep w (backoff attempt)
          then attempts net url max_retries rest
                 (w\<lparr>requests := requests w @ [url], slept := slept w @ [backoff attempt]\<rparr>)
          else (Inl (if MAX_SLEEP < backoff attempt then OverflowError else OSError),
                w\<lparr>requests := requests w @ [url]\<rparr>))
       \<and> ((\<forall>n u. net n u = Returns r) \<and> (\<forall>a<max_retries. can_sleep w (backoff a)) \<longrightarrow>
            call_graph_with_retry net url max_retries w =
              (Inl (HTTPError (status_code r) (body_text r)),
               w\<lparr>requests := requests w @ replicate (max_retries + 1) url,
                 slept := slept w @ map backoff [0 ..< max_retries]\<rparr>))"
proof (intro conjI impI)
  show "attempts net url max_retries (attempt # rest) w =
         (if attempt = max_retries
          then (Inl (HTTPError (status_code r) (body_text r)), w\<lparr>requests := requests w @ [url]\<rparr>)
          else if can_sleep w (backoff attempt)
          then attempts net url max_retries rest
                 (w\<lparr>requests := requests w @ [url], slept := slept w @ [backoff attempt]\<rparr>)
          else (Inl (if MAX_SLEEP < backoff attempt then OverflowError else OSError),
                w\<lparr>requests := requests w @ [url]\<rparr>))"
    using assms attempt_body_client_error [of net w url r max_retries attempt] by simp
next
  assume all: "(\<forall>n u. net n u = Returns r) \<and> (\<forall>a<max_retries. can_sleep w (backoff a))"
  then have n: "\<And>n u. net n u = Returns r"
    and s: "\<forall>a\<in>set [0 ..< max_retries]. can_sleep w (backoff a)" by auto
  have "attempts net url max_retries ([0 ..< max_retries] @ [max_retries]) w =
         (Inl (HTTPError (status_code r) (body_text r)),
          w\<lparr>requests := requests w @ replicate (length [0 ..< max_retries] + 1) url,
            slept := slept w @ map backoff [0 ..< max_retries]\<rparr>)"
    using attempts_client_errors [of net r max_retries "[0 ..< max_retries]" w url, OF n assms(2-4) _ s]
    by simp
  then show "call_graph_with_retry net url max_retries w =
              (Inl (HTTPError (status_code r) (body_text r)),
               w\<lparr>requests := requests w @ replicate (max_retries + 1) url,
                 slept := slept w @ map backoff [0 ..< max_retries]\<rparr>)"
    by (simp add: call_graph_with_retry_def)
qed

theorem client_error_retried_witness:
  "call_graph_with_retry (always (reply 403 None ''Forbidden'' (Inl ValueError) :: unit response))
     notebooks_url 2 w0
   = (Inl (HTTPError 403 ''Forbidden''),
      \<lparr>requests = [notebooks_url, notebooks_url, notebooks_url], slept = [1, 2],
       written = [], logged = [], longest_sleep = 9000000000\<rparr>)
   \<and> attempts (always (reply 403 None ''Forbidden'' (Inl ValueError) :: unit response))
     notebooks_url 2 [2] w0
   = (Inl (HTTPError 403 ''Forbidden''),
      \<lparr>requests = [notebooks_url], slept = [], written = [], logged = [], longest_sleep = 9000000000\<rparr>)"
proof -
  let ?r = "reply 403 None ''Forbidden'' (Inl ValueError) :: unit response"
  have a: "always ?r (length (requests w0)) notebooks_url = Returns ?r"
    and b: "400 \<le> status_code ?r" "status_code ?r < 500" "status_code ?r \<noteq> 429"
    and c: "\<forall>n u. always ?r n u = Returns ?r"
    by (simp_all add: always_def reply_def)
  have d: "\<forall>a<2. can_sleep w0 (backoff a)"
    by (simp add: can_sleep_def w0_def backoff_def BASE_DELAY_def MAX_SLEEP_def less_2_cases_iff)
  note inst = client_error_retried [of "always ?r" w0 notebooks_url ?r 2 2 "[]", OF a b]
  from inst c d have e1: "call_graph_with_retry (always ?r) notebooks_url 2 w0 =
      (Inl (HTTPError (status_code ?r) (body_text ?r)),
       w0\<lparr>requests := requests w0 @ replicate (2 + 1) notebooks_url,
          slept := slept w0 @ map backoff [0 ..< 2]\<rparr>)"
    by blast
  from inst have e2: "attempts (always ?r) notebooks_url 2 [2] w0 =
      (Inl (HTTPError (status_code ?r) (body_text ?r)), w0\<lparr>requests := requests w0 @ [notebooks_url]\<rparr>)"
    by (simp only: if_True refl conj_imp_eq_imp_imp)
  have l: "[0 ..< 2] = [0, Suc 0]" "replicate (2 + 1) notebooks_url = [notebooks_url, notebooks_url, notebooks_url]"
    by (simp_all add: upt_rec numeral_eq_Suc)
  show ?thesis
    unfolding e1 e2 l by (simp add: w0_def reply_def backoff_def BASE_DELAY_def)
qed

subsection \<open>Rate limiting\<close>

text \<open>
  Claim C4 says that after a 429 response the caller sleeps and then retries, and that a
  429 never makes it raise. Neither holds for every response. With the default budget
  and a 429 with \<^verbatim>\<open>Retry-After: 2\<close> on every request, the fourth sleep is
  followed by no request: four requests, four sleeps. And a \<^verbatim>\<open>Retry-After\<close> of
  \<open>10\<^sup>2\<^sup>0\<close> seconds makes \<^verbatim>\<open>time.sleep\<close> raise \<^verbatim>\<open>OverflowError\<close>, which
  leaves the caller after the first request.
\<close>

theorem rate_limit_counterexample:
  "call_graph_with_retry
     (always (reply 429 (Some ''2'') [] (Inl ValueError) :: unit response))
     notebooks_url MAX_RETRIES w0
   = (Inr None,
      \<lparr>requests = [notebooks_url, notebooks_url, notebooks_url, notebooks_url],
       slept = [2, 2, 2, 2], written = [], logged = [], longest_sleep = 9000000000\<rparr>)
   \<and> call_graph_with_retry
     (always (reply 429 (Some ''100000000000000000000'') [] (Inl ValueError) :: unit response))
     notebooks_url MAX_RETRIES w0
   = (Inl OverflowError,
      \<lparr>requests = [notebooks_url], slept = [], written = [], logged = [], longest_sleep = 9000000000\<rparr>)"
  by (simp add: call_graph_with_retry_def MAX_RETRIES_def upt_rec w0_def always_def reply_def
      attempt_body_def session_get_def retry_after_seconds_def py_int_def limited_digits_def
      MAX_STR_DIGITS_def int_space_def isdigit_def digit_val_def
      sleep_then_next_def sleep_def MAX_SLEEP_def notebooks_url_def)

text \<open>
  Claim C4 as amended. On a 429 response whose \<^verbatim>\<open>Retry-After\<close> header is the
  decimal numeral of a whole number \<open>n\<close> of seconds, the duration \<open>d\<close> of the sleep
  is exactly \<open>n\<close>; without the header it is \<open>BASE_DELAY * 2 ^ attempt\<close>. When the
  clock accepts \<open>d\<close> (at most 9223372036 seconds, and no more than the operating
  system allows), the attempt ends in \<open>Next\<close>, not in \<open>Raise\<close>. When the attempt is
  not the last one, the caller then retries: the rest of the loop runs in the world
  after the sleep, and its first step is a second request to the URL. On the last
  attempt no request follows the sleep.
\<close>

theorem rate_limit_sleeps_then_retries:
  assumes "net (length (requests w)) url = Returns r" and "status_code r = 429"
    and "retry_after r = Some (decimal n) \<and> d = int n
         \<or> retry_after r = None \<and> d = BASE_DELAY * 2 ^ attempt"
    and "can_sleep w d"
  shows "attempt_body net url max_retries attempt w
           = Next (w\<lparr>requests := requests w @ [url], slept := slept w @ [d]\<rparr>)
       \<and> (attempt < max_retries \<longrightarrow>
            attempts net url max_retries [attempt ..< max_retries + 1] w
              = attempts net url max_retries [attempt + 1 ..< max_retries + 1]
                  (w\<lparr>requests := requests w @ [url], slept := slept w @ [d]\<rparr>)
            \<and> prefix (requests w @ [url, url])
                 (requests (snd (attempts net url max_retries [attempt ..< max_retries + 1] w)))
            \<and> prefix (slept w @ [d])
                 (slept (snd (attempts net url max_retries [attempt ..< max_retries + 1] w))))
       \<and> (attempt = max_retries \<longrightarrow>
            requests (snd (attempts net url max_retries [attempt ..< max_retries + 1] w))
              = requests w @ [url])"
proof -
  let ?W = "w\<lparr>requests := requests w @ [url], slept := slept w @ [d]\<rparr>"
  let ?loop = "attempts net url max_retries [attempt ..< max_retries + 1] w"
  have body: "attempt_body net url max_retries attempt w = Next ?W"
    using assms(3)
  proof
    assume h: "retry_after r = Some (decimal n) \<and> d = int n"
    with assms(4) have "int n \<le> 9223372036" by (simp add: can_sleep_def MAX_SLEEP_def)
    then have "n < 10 ^ 10" by simp
    then have "py_int (decimal n) = Some d" using h by (simp add: py_int_decimal)
    with h assms show ?thesis
      using attempt_body_429_header [of net w url r "decimal n" d max_retries attempt] by simp
  next
    assume h: "retry_after r = None \<and> d = BASE_DELAY * 2 ^ attempt"
    with assms show ?thesis
      using attempt_body_429_absent [of net w url r attempt max_retries]
      by (simp add: backoff_def)
  qed
  have retry: "?loop = attempts net url max_retries [attempt + 1 ..< max_retries + 1] ?W
      \<and> prefix (requests w @ [url, url]) (requests (snd ?loop))
      \<and> prefix (slept w @ [d]) (slept (snd ?loop))" if lt: "attempt < max_retries"
  proof -
    from lt have l1: "[attempt ..< max_retries + 1] = attempt # [attempt + 1 ..< max_retries + 1]"
      by (simp add: upt_conv_Cons)
    from lt have l2: "[attempt + 1 ..< max_retries + 1]
        = (attempt + 1) # [attempt + 2 ..< max_retries + 1]"
      by (simp add: upt_conv_Cons)
    have eq: "?loop = attempts net url max_retries [attempt + 1 ..< max_retries + 1] ?W"
      unfolding l1 using body by simp
    have "prefix (requests ?W @ [url])
        (requests (snd (attempts net url max_retries ((attempt + 1) # [attempt + 2 ..< max_retries + 1]) ?W)))"
      by (rule attempts_first_request)
    then have p1: "prefix (requests w @ [url, url]) (requests (snd ?loop))"
      unfolding eq l2 by simp
    have "prefix (slept ?W) (slept (snd (attempts net url max_retries [attempt + 1 ..< max_retries + 1] ?W)))"
      by (rule attempts_slept)
    then have p2: "prefix (slept w @ [d]) (slept (snd ?loop))"
      unfolding eq by simp
    from eq p1 p2 show ?thesis by blast
  qed
  have last: "requests (snd ?loop) = requests w @ [url]" if "attempt = max_retries"
  proof -
    from that have "[attempt ..< max_retries + 1] = [attempt]" by simp
    then show ?thesis using body by simp
  qed
  from body retry last show ?thesis by blast
qed

theorem rate_limit_sleeps_then_retries_witness:
  "call_graph_with_retry
     (script [Returns (reply 500 None [] (Inl ValueError)),
              Returns (reply 429 (Some ''120'') [] (Inl ValueError)),
              Returns (reply 200 None [] (Inr \<lparr>value_field = Some [''1''], nextLink = None\<rparr>))])
     notebooks_url 3 w0
   = (Inr (Some \<lparr>value_field = Some [''1''], nextLink = None\<rparr>),
      \<lparr>requests = [notebooks_url, notebooks_url, notebooks_url], slept = [1, 120],
       written = [], logged = [], longest_sleep = 9000000000\<rparr>)
   \<and> call_graph_with_retry
     (script [Returns (reply 500 None [] (Inl ValueError)),
              Returns (reply 429 None [] (Inl ValueError)),
              Returns (reply 200 None [] (Inr \<lparr>value_field = Some [''1''], nextLink = None\<rparr>))])
     notebooks_url 3 w0
   = (Inr (Some \<lparr>value_field = Some [''1''], nextLink = None\<rparr>),
      \<lparr>requests = [notebooks_url, notebooks_url, notebooks_url], slept = [1, 2],
       written = [], logged = [], longest_sleep = 9000000000\<rparr>)"
proof -
  let ?d = "\<lparr>value_field = Some [''1''], nextLink = None\<rparr> :: string listing"
  let ?e = "Returns (reply 500 None [] (Inl ValueError)) :: string get_outcome"
  let ?ok = "Returns (reply 200 None [] (Inr ?d))"
  let ?r1 = "reply 429 (Some ''120'') [] (Inl ValueError) :: string response"
  let ?r2 = "reply 429 None [] (Inl ValueError) :: string response"
  let ?u = notebooks_url
  let ?w1 = "w0\<lparr>requests := [?u], slept := [1]\<rparr>"
  have dec: "decimal 120 = ''120''"
    by code_simp
  have lt: "(1::nat) < 3" by simp
  have l: "[0 ..< 3 + 1] = [0, 1, 2, 3::nat]" "[1 ..< 3 + 1] = [1, 2, 3::nat]"
    "[1 + 1 ..< 3 + 1] = [2, 3::nat]"
    by (simp_all add: upt_rec numeral_eq_Suc)
  have first: "attempts (script [?e, x, y]) ?u 3 [0, 1, 2, 3] w0
      = attempts (script [?e, x, y]) ?u 3 [1, 2, 3] ?w1" for x y
    by (simp add: attempt_body_def session_get_def script_def reply_def w0_def
        sleep_then_next_def sleep_def MAX_SLEEP_def backoff_def BASE_DELAY_def)
  have third: "attempts (script [?e, x, ?ok]) ?u 3 [2, 3] (w0\<lparr>requests := [?u, ?u], slept := sl\<rparr>)
      = (Inr (Some ?d), w0\<lparr>requests := [?u, ?u, ?u], slept := sl\<rparr>)" for x sl
    by (simp add: attempt_body_def session_get_def script_def reply_def w0_def raise_for_status_def)
  have c: "can_sleep ?w1 120" "can_sleep ?w1 (BASE_DELAY * 2 ^ 1)"
    by (simp_all add: can_sleep_def w0_def MAX_SLEEP_def BASE_DELAY_def)
  have a1: "script [?e, Returns ?r1, ?ok] (length (requests ?w1)) ?u = Returns ?r1"
    and a2: "script [?e, Returns ?r2, ?ok] (length (requests ?w1)) ?u = Returns ?r2"
    and s: "status_code ?r1 = 429" "status_code ?r2 = 429"
    and h1: "retry_after ?r1 = Some (decimal 120) \<and> (120::int) = int 120
         \<or> retry_after ?r1 = None \<and> (120::int) = BASE_DELAY * 2 ^ 1"
    and h2: "retry_after ?r2 = Some (decimal 0) \<and> BASE_DELAY * 2 ^ 1 = int 0
         \<or> retry_after ?r2 = None \<and> BASE_DELAY * 2 ^ 1 = BASE_DELAY * 2 ^ 1"
    by (simp_all add: script_def reply_def dec)
  from rate_limit_sleeps_then_retries
    [where net = "script [?e, Returns ?r1, ?ok]" and w = ?w1 and url = ?u and r = ?r1
      and n = 120 and d = 120 and attempt = 1 and max_retries = 3, OF a1 s(1) h1 c(1)] lt
  have "attempts (script [?e, Returns ?r1, ?ok]) ?u 3 [1 ..< 3 + 1] ?w1
      = attempts (script [?e, Returns ?r1, ?ok]) ?u 3 [1 + 1 ..< 3 + 1]
          (?w1\<lparr>requests := requests ?w1 @ [?u], slept := slept ?w1 @ [120]\<rparr>)"
    by blast
  then have second1: "attempts (script [?e, Returns ?r1, ?ok]) ?u 3 [1, 2, 3] ?w1
      = attempts (script [?e, Returns ?r1, ?ok]) ?u 3 [2, 3] (w0\<lparr>requests := [?u, ?u], slept := [1, 120]\<rparr>)"
    unfolding l by simp
  from rate_limit_sleeps_then_retries
    [where net = "script [?e, Returns ?r2, ?ok]" and w = ?w1 and url = ?u and r = ?r2
      and n = 0 and d = "BASE_DELAY * 2 ^ 1" and attempt = 1 and max_retries = 3,
      OF a2 s(2) h2 c(2)] lt
  have "attempts (script [?e, Returns ?r2, ?ok]) ?u 3 [1 ..< 3 + 1] ?w1
      = attempts (script [?e, Returns ?r2, ?ok]) ?u 3 [1 + 1 ..< 3 + 1]
          (?w1\<lparr>requests := requests ?w1 @ [?u], slept := slept ?w1 @ [BASE_DELAY * 2 ^ 1]\<rparr>)"
    by blast
  then have second2: "attempts (script [?e, Returns ?r2, ?ok]) ?u 3 [1, 2, 3] ?w1
      = attempts (script [?e, Returns ?r2, ?ok]) ?u 3 [2, 3] (w0\<lparr>requests := [?u, ?u], slept := [1, 2]\<rparr>)"
    unfolding l by (simp add: BASE_DELAY_def)
  have "call_graph_with_retry (script [?e, Returns ?r1, ?ok]) ?u 3 w0
      = (Inr (Some ?d), w0\<lparr>requests := [?u, ?u, ?u], slept := [1, 120]\<rparr>)"
    unfolding call_graph_with_retry_def l first second1 third ..
  moreover have "call_graph_with_retry (script [?e, Returns ?r2, ?ok]) ?u 3 w0
      = (Inr (Some ?d), w0\<lparr>requests := [?u, ?u, ?u], slept := [1, 2]\<rparr>)"
    unfolding call_graph_with_retry_def l first second2 third ..
  ultimately show ?thesis
    by (simp add: w0_def)
qed

text \<open>
  Claim C9. On a 429 response whose \<^verbatim>\<open>Retry-After\<close> header is not a decimal
  integer (an HTTP date, say) \<^verbatim>\<open>int()\<close> raises \<^verbatim>\<open>ValueError\<close>, which
  the \<^verbatim>\<open>except\<close> block does not catch: the caller raises it, on whatever attempt
  the response arrives, without sleeping and without another request.
\<close>

theorem bad_retry_after_raises_ValueError:
  assumes "net (length (requests w)) url = Returns r" and "status_code r = 429"
    and "retry_after r = Some s" and "py_int s = None"
  shows "attempts net url max_retries (attempt # rest) w
           = (Inl ValueError, w\<lparr>requests := requests w @ [url]\<rparr>)
       \<and> call_graph_with_retry net url max_retries w
           = (Inl ValueError, w\<lparr>requests := requests w @ [url]\<rparr>)"
proof -
  have b: "attempt_body net url max_retries a w = Raise ValueError (w\<lparr>requests := requests w @ [url]\<rparr>)" for a
    using assms attempt_body_429_bad_header [of net w url r s max_retries a] by simp
  have "[0 ..< max_retries + 1] = 0 # [1 ..< max_retries + 1]"
    by (simp add: upt_rec)
  then show ?thesis
    by (simp add: call_graph_with_retry_def b)
qed

theorem bad_retry_after_raises_ValueError_witness:
  "py_int ''Wed, 21 Oct 2015 07:28:00 GMT'' = None
   \<and> call_graph_with_retry
     (always (reply 429 (Some ''Wed, 21 Oct 2015 07:28:00 GMT'') [] (Inl ValueError) :: unit response))
     notebooks_url MAX_RETRIES w0
   = (Inl ValueError, \<lparr>requests = [notebooks_url], slept = [], written = [], logged = [], longest_sleep = 9000000000\<rparr>)"
proof -
  have d: "py_int ''Wed, 21 Oct 2015 07:28:00 GMT'' = None"
    by (simp add: py_int_def limited_digits_def MAX_STR_DIGITS_def int_space_def isdigit_def)
  show ?thesis
    using d bad_retry_after_raises_ValueError
      [of "always (reply 429 (Some ''Wed, 21 Oct 2015 07:28:00 GMT'') [] (Inl ValueError) :: unit response)"
        w0 notebooks_url "reply 429 (Some ''Wed, 21 Oct 2015 07:28:00 GMT'') [] (Inl ValueError)"
        "''Wed, 21 Oct 2015 07:28:00 GMT''" MAX_RETRIES 0 "[]"]
    by (simp add: always_def reply_def w0_def)
qed

subsection \<open>The budget of requests\<close>

text \<open>
  Claim C10. \<open>call_graph_with_retry\<close> is a total function (its loop runs over the
  list of attempts), and whatever the network answers it makes at most
  \<open>max_retries + 1\<close> requests: a 429 uses up an attempt like a server error or a
  connection failure.
\<close>

theorem retry_budget_bounds_requests:
  "length (requests (snd (call_graph_with_retry net url max_retries w)))
     \<le> length (requests w) + (max_retries + 1)"
  using attempts_requests_le [of net url max_retries "[0 ..< max_retries + 1]" w]
  by (simp add: call_graph_with_retry_def)

theorem retry_budget_bounds_requests_witness:
  "length (requests (snd (call_graph_with_retry
      (always (reply 429 (Some ''1'') [] (Inl ValueError) :: unit response)) notebooks_url MAX_RETRIES w0)))
     \<le> 4"
  using retry_budget_bounds_requests
    [of "always (reply 429 (Some ''1'') [] (Inl ValueError) :: unit response)" notebooks_url MAX_RETRIES w0]
  by (simp add: MAX_RETRIES_def w0_def)

section \<open>Properties of the paginator\<close>

lemma next_pages_last:
  "nextLink d = None \<Longrightarrow> next_pages caller d results w = Some (Inr results, w)"
  by (subst next_pages.simps) simp

lemma next_pages_more:
  "nextLink d = Some link \<Longrightarrow> caller link w = (Inr (Some d'), w') \<Longrightarrow>
   next_pages caller d results w = next_pages caller d' (results @ vals d') w'"
  by (subst next_pages.simps) simp

lemma call_with_retry_ok:
  assumes "net (length (requests w)) url = Returns r"
    and "status_code r = 200" and "json r = Inr d"
  shows "call_graph_with_retry net url max_retries w = (Inr (Some d), w\<lparr>requests := requests w @ [url]\<rparr>)"
proof -
  have "attempt_body net url max_retries 0 w = Return d (w\<lparr>requests := requests w @ [url]\<rparr>)"
    using assms by (simp add: attempt_body_def session_get_def raise_for_status_def)
  moreover have "[0 ..< max_retries + 1] = 0 # [1 ..< max_retries + 1]"
    by (simp add: upt_rec)
  ultimately show ?thesis
    by (simp add: call_graph_with_retry_def)
qed

text \<open>
  Claim C5. When the first call returns a page with a link to a second page and the
  call on that link returns a page without a link, the paginator returns the records of
  the first page followed by those of the second, in the order the API gave them, and
  calls the caller exactly twice: on the URL, then on the link.
\<close>

theorem two_pages_concatenated:
  assumes "caller url w = (Inr (Some d1), w1)" and "nextLink d1 = Some p2"
    and "caller p2 w1 = (Inr (Some d2), w2)" and "nextLink d2 = None"
  shows "call_graph_paginated (recording caller) url (w, calls)
         = Some (Inr (vals d1 @ vals d2), (w2, calls @ [url, p2]))"
proof -
  have first: "recording caller url (w, calls) = (Inr (Some d1), (w1, calls @ [url]))"
    using assms(1) by (simp add: recording_def)
  have second: "recording caller p2 (w1, calls @ [url]) = (Inr (Some d2), (w2, calls @ [url, p2]))"
    using assms(3) by (simp add: recording_def)
  have "call_graph_paginated (recording caller) url (w, calls)
      = next_pages (recording caller) d1 (vals d1) (w1, calls @ [url])"
    by (simp add: call_graph_paginated_def first)
  also have "\<dots> = next_pages (recording caller) d2 (vals d1 @ vals d2) (w2, calls @ [url, p2])"
    using assms(2) second by (rule next_pages_more)
  also have "\<dots> = Some (Inr (vals d1 @ vals d2), (w2, calls @ [url, p2]))"
    using assms(4) by (rule next_pages_last)
  finally show ?thesis .
qed

theorem two_pages_concatenated_witness:
  "call_graph_paginated (recording (graph_caller two_pages)) ''https://graph.microsoft.com/v1.0/test'' (w0, [])
   = Some (Inr [[(''id'', ''1''), (''name'', ''item1'')], [(''id'', ''2''), (''name'', ''item2'')]],
           (\<lparr>requests = [''https://graph.microsoft.com/v1.0/test'',
                          ''https://graph.microsoft.com/v1.0/test?$skip=1''],
             slept = [], written = [], logged = [], longest_sleep = 9000000000\<rparr>,
            [''https://graph.microsoft.com/v1.0/test'', ''https://graph.microsoft.com/v1.0/test?$skip=1'']))"
proof -
  let ?u = "''https://graph.microsoft.com/v1.0/test''"
  let ?p2 = "''https://graph.microsoft.com/v1.0/test?$skip=1''"
  let ?w1 = "w0\<lparr>requests := requests w0 @ [?u]\<rparr>"
  let ?w2 = "?w1\<lparr>requests := requests ?w1 @ [?p2]\<rparr>"
  have c1: "graph_caller two_pages ?u w0 = (Inr (Some page1), ?w1)"
    unfolding graph_caller_def
    by (rule call_with_retry_ok [where r = "reply 200 None [] (Inr page1)"])
       (simp_all add: two_pages_def script_def w0_def reply_def)
  have c2: "graph_caller two_pages ?p2 ?w1 = (Inr (Some page2), ?w2)"
    unfolding graph_caller_def
    by (rule call_with_retry_ok [where r = "reply 200 None [] (Inr page2)"])
       (simp_all add: two_pages_def script_def w0_def reply_def)
  have n1: "nextLink page1 = Some ?p2" by (simp add: page1_def)
  have n2: "nextLink page2 = None" by (simp add: page2_def)
  show ?thesis
    using two_pages_concatenated [of "graph_caller two_pages" ?u w0 page1 ?w1 ?p2 page2 ?w2 "[]", OF c1 n1 c2 n2]
    by (simp add: vals_def page1_def page2_def w0_def)
qed

section \<open>Properties of the names\<close>

lemma not_illegal_underscore: "\<not> illegal CHR ''_''"
  by (simp add: illegal_def)

lemma sanitize_legal: "\<forall>c\<in>set (sanitize name). \<not> illegal c"
  by (auto simp: sanitize_def not_illegal_underscore)

lemma strip_Nil: "strip [] = []"
  by (simp add: strip_def)

text \<open>
  Claim C3 says that a name made only of illegal characters yields a fallback derived
  from the identifier. It does not: each illegal character becomes an underscore, so
  the title \<^verbatim>\<open>///\<close> gives the file name \<^verbatim>\<open>___\<close>, not
  \<^verbatim>\<open>page_0-abcdef\<close>.
\<close>

theorem all_illegal_title_counterexample:
  "safe_title ''///'' ''0-abcdef123!45'' = ''___''
   \<and> safe_title ''///'' ''0-abcdef123!45'' \<noteq> ''page_'' @ take 8 ''0-abcdef123!45''"
  by (simp add: safe_title_def sanitize_def illegal_def strip_def isspace_def)

text \<open>
  Claim C3 as amended. Sanitization replaces each of the nine characters by an
  underscore and keeps the length: the result has none of them, is not empty for an
  input that is not empty, and is a row of underscores for an input made only of them.
  The file name of a page is never empty: it is \<^verbatim>\<open>page_\<close> followed by the first
  eight characters of the identifier when the sanitized title is empty or only
  whitespace, and the sanitized title otherwise.
\<close>

theorem sanitize_and_page_fallback:
  "(\<forall>c\<in>set (sanitize name). \<not> illegal c)
   \<and> length (sanitize name) = length name
   \<and> (name \<noteq> [] \<longrightarrow> sanitize name \<noteq> [])
   \<and> ((\<forall>c\<in>set name. illegal c) \<longrightarrow> sanitize name = replicate (length name) CHR ''_'')
   \<and> safe_title page_title page_id \<noteq> []
   \<and> (strip (sanitize page_title) = [] \<longrightarrow> safe_title page_title page_id = ''page_'' @ take 8 page_id)
   \<and> (strip (sanitize page_title) \<noteq> [] \<longrightarrow>
        safe_title page_title page_id = sanitize page_title
        \<and> (\<forall>c\<in>set (safe_title page_title page_id). \<not> illegal c))"
proof (intro conjI)
  show "\<forall>c\<in>set (sanitize name). \<not> illegal c" by (rule sanitize_legal)
  show "length (sanitize name) = length name" by (simp add: sanitize_def)
  show "name \<noteq> [] \<longrightarrow> sanitize name \<noteq> []" by (simp add: sanitize_def)
  show "(\<forall>c\<in>set name. illegal c) \<longrightarrow> sanitize name = replicate (length name) CHR ''_''"
    by (induction name) (simp_all add: sanitize_def)
  show "safe_title page_title page_id \<noteq> []"
    using strip_Nil by (auto simp: safe_title_def Let_def)
  show "strip (sanitize page_title) = [] \<longrightarrow> safe_title page_title page_id = ''page_'' @ take 8 page_id"
    by (simp add: safe_title_def Let_def)
  show "strip (sanitize page_title) \<noteq> [] \<longrightarrow>
        safe_title page_title page_id = sanitize page_title
        \<and> (\<forall>c\<in>set (safe_title page_title page_id). \<not> illegal c)"
    using sanitize_legal [of page_title] by (simp add: safe_title_def Let_def)
qed

theorem sanitize_and_page_fallback_witness:
  "sanitize ''a/b:c*d'' = ''a_b_c_d''
   \<and> sanitize ''/:*'' = ''___''
   \<and> safe_title [] ''0-abcdef123!45'' = ''page_0-abcdef''
   \<and> safe_title ''Q1: Plan?'' ''0-abcdef123!45'' = ''Q1_ Plan_''
   \<and> \<not> illegal CHR ''a'' \<and> \<not> illegal CHR ''_'' \<and> \<not> illegal CHR '' ''"
proof -
  have a: "sanitize ''a/b:c*d'' = ''a_b_c_d''" by (simp add: sanitize_def illegal_def)
  have b: "\<forall>c\<in>set ''/:*''. illegal c" by (simp add: illegal_def)
  have c: "strip (sanitize []) = []" by (simp add: sanitize_def strip_def)
  have d: "sanitize ''Q1: Plan?'' = ''Q1_ Plan_''" by (simp add: sanitize_def illegal_def)
  have e: "strip ''Q1_ Plan_'' \<noteq> []" by (simp add: strip_def isspace_def)
  show ?thesis
    using sanitize_and_page_fallback [of "''a/b:c*d''" "[]" "''0-abcdef123!45''"]
      sanitize_and_page_fallback [of "''/:*''" "''Q1: Plan?''" "''0-abcdef123!45''"]
      a b c d e
    by simp
qed

text \<open>
  The directories have no fallback: a notebook whose display name is the empty string
  gets the output directory itself.
\<close>

lemma empty_display_name:
  "notebook_path ''output'' [(''id'', ''1''), (''displayName'', [])] = ''output''"
  by (simp add: notebook_path_def dict_get_def sanitize_def path_join_def path_root_def
      path_parts_def path_str_def)

section \<open>Properties of the transformation\<close>

lemmas path_defs = path_join_def path_root_def path_parts_def path_str_def

subsection \<open>The matches of the pattern\<close>

text \<open>
  A match always ends before the end of the text it started in, so the guard in
  \<open>img_urls\<close> is always true and the search goes on after the match.
\<close>

lemma dropWhile_Cons_shorter: "dropWhile P xs = y # ys \<Longrightarrow> length ys < length xs"
  using length_dropWhile_le [of P xs] by simp

lemma src_tail_shorter: "src_tail s = Some (u, rest) \<Longrightarrow> length rest < length s"
  by (auto simp: src_tail_def Let_def split: list.splits if_splits
      dest!: dropWhile_Cons_shorter)

lemma give_back_shorter: "give_back k t = Some (u, rest) \<Longrightarrow> length rest < length t + 4"
proof (induction k)
  case 0 then show ?case by simp
next
  case (Suc k)
  show ?case
  proof (cases "prefix ''src='' (drop (Suc k) t) \<and> src_tail (drop (Suc k + 4) t) \<noteq> None")
    case True
    with Suc.prems have "src_tail (drop (Suc k + 4) t) = Some (u, rest)"
      by (auto split: if_splits)
    then have "length rest < length (drop (Suc k + 4) t)" by (rule src_tail_shorter)
    then show ?thesis by simp
  next
    case False
    with Suc show ?thesis by (auto split: if_splits option.splits)
  qed
qed

lemma match_img_shorter: "match_img s = Some (u, rest) \<Longrightarrow> length rest < length s"
proof -
  assume a: "match_img s = Some (u, rest)"
  then have p: "prefix ''<img'' s" and g: "give_back (length (takeWhile (\<lambda>c. c \<noteq> CHR ''>'') (drop 4 s))) (drop 4 s) = Some (u, rest)"
    by (auto simp: match_img_def split: if_splits)
  from p have "4 \<le> length s" by (auto dest: prefix_length_le)
  with give_back_shorter [OF g] show ?thesis by simp
qed

lemma img_urls_Cons:
  "img_urls (c # cs) =
     (case match_img (c # cs) of Some (url, rest) \<Rightarrow> url # img_urls rest | None \<Rightarrow> img_urls cs)"
  by (auto split: option.splits dest: match_img_shorter)

subsection \<open>Replacing between quotes\<close>

lemma prefix_sep:
  assumes "q \<notin> set p"
  shows "prefix p (xs @ q # ys) \<longleftrightarrow> prefix p xs"
proof
  assume "prefix p (xs @ q # ys)"
  then consider "prefix p xs" | us where "p = xs @ us" "prefix us (q # ys)"
    by (auto simp: prefix_append)
  then show "prefix p xs"
  proof cases
    case 1 then show ?thesis .
  next
    case 2
    with assms have "us = []" by (cases us) auto
    with 2 show ?thesis by simp
  qed
next
  assume "prefix p xs" then show "prefix p (xs @ q # ys)" by (simp add: prefix_prefix)
qed

lemma occurrences_sep:
  assumes "q \<notin> set p" and "p \<noteq> []"
  shows "occurrences p (xs @ q # ys) = occurrences p xs + occurrences p ys"
proof (induction xs)
  case Nil
  from assms have "\<not> prefix p (q # ys)" by (cases p) auto
  then show ?case by simp
next
  case (Cons x xs)
  have "prefix p ((x # xs) @ q # ys) \<longleftrightarrow> prefix p (x # xs)"
    using assms(1) by (rule prefix_sep)
  with Cons show ?case by simp
qed

lemma occurrences_short: "length s < length p \<Longrightarrow> occurrences p s = 0"
proof (induction s)
  case Nil show ?case by simp
next
  case (Cons c cs)
  then have "\<not> prefix p (c # cs)" by (auto dest: prefix_length_le)
  with Cons show ?case by simp
qed

lemma occurrences_self: "p \<noteq> [] \<Longrightarrow> occurrences p p = 1"
  by (cases p) (simp_all add: occurrences_short)

lemma not_prefix_sep: "q \<notin> set p \<Longrightarrow> p \<noteq> [] \<Longrightarrow> \<not> prefix p (q # ys)"
  by (cases p) auto

lemma replace_str_sep:
  "q \<notin> set old \<Longrightarrow> old \<noteq> [] \<Longrightarrow>
   replace_str old new (xs @ q # ys) = replace_str old new xs @ q # replace_str old new ys"
proof (induction old new xs rule: replace_str.induct)
  case (1 old new)
  then show ?case by (simp add: not_prefix_sep)
next
  case (2 old new c cs)
  have p: "prefix old ((c # cs) @ q # ys) \<longleftrightarrow> prefix old (c # cs)"
    using "2.prems"(1) by (rule prefix_sep)
  show ?case
  proof (cases "prefix old (c # cs)")
    case True
    then have "length old \<le> length (c # cs)" by (rule prefix_length_le)
    then have d: "drop (length old) ((c # cs) @ q # ys) = drop (length old) (c # cs) @ q # ys"
      by (simp only: drop_append diff_is_0_eq' drop_0)
    from True p have "replace_str old new ((c # cs) @ q # ys)
        = new @ replace_str old new (drop (length old) ((c # cs) @ q # ys))"
      using "2.prems"(2) by simp
    also have "\<dots> = new @ replace_str old new (drop (length old) (c # cs)) @ q # replace_str old new ys"
      unfolding d using "2.IH"(1) [OF "2.prems"(2) True "2.prems"] by simp
    finally show ?thesis using True "2.prems"(2) by simp
  next
    case False
    with p have "\<not> prefix old (c # cs @ q # ys)" by simp
    with False show ?thesis
      using "2.prems"(2) "2.IH"(2) [OF "2.prems"(2) False "2.prems"] by simp
  qed
qed

lemma replace_str_self: "old \<noteq> [] \<Longrightarrow> replace_str old new old = new"
  by (cases old) simp_all

lemma replace_str_absent:
  "old \<noteq> [] \<Longrightarrow> occurrences old s = 0 \<Longrightarrow> replace_str old new s = s"
  by (induction s) (auto split: if_splits)

lemma src_tail_no_quote: "src_tail s = Some (u, rest) \<Longrightarrow> \<forall>c\<in>set u. \<not> quote c"
  by (auto simp: src_tail_def Let_def split: list.splits if_splits dest: set_takeWhileD)

lemma give_back_no_quote: "give_back k t = Some (u, rest) \<Longrightarrow> \<forall>c\<in>set u. \<not> quote c"
proof (induction k)
  case 0 then show ?case by simp
next
  case (Suc k)
  then show ?case
    by (auto split: if_splits option.splits dest: src_tail_no_quote)
qed

lemma match_img_no_quote: "match_img s = Some (u, rest) \<Longrightarrow> \<forall>c\<in>set u. \<not> quote c"
  by (auto simp: match_img_def split: if_splits dest: give_back_no_quote)

lemma img_urls_no_quote: "u \<in> set (img_urls s) \<Longrightarrow> \<forall>c\<in>set u. \<not> quote c"
proof (induction s rule: img_urls.induct)
  case 1 then show ?case by simp
next
  case (2 c cs)
  show ?case
  proof (cases "match_img (c # cs)")
    case None
    with 2 show ?thesis by simp
  next
    case (Some m)
    obtain v rest where m: "m = (v, rest)" by (cases m)
    from Some m have v: "\<forall>c\<in>set v. \<not> quote c" by (auto dest: match_img_no_quote)
    show ?thesis
    proof (cases "length rest < length (c # cs)")
      case True
      with 2 Some m v show ?thesis by auto
    next
      case False
      with 2 Some m v show ?thesis by auto
    qed
  qed
qed

lemma twice_replaced:
  assumes q: "quote q1" "quote q2" "quote q3" "quote q4"
    and u: "\<forall>c\<in>set url. \<not> quote c" "url \<noteq> []"
    and a: "occurrences url A = 0" "occurrences url B = 0" "occurrences url C = 0"
  shows "replace_str url f (A @ q1 # url @ q2 # B @ q3 # url @ q4 # C)
         = A @ q1 # f @ q2 # B @ q3 # f @ q4 # C"
proof -
  have n: "q1 \<notin> set url" "q2 \<notin> set url" "q3 \<notin> set url" "q4 \<notin> set url"
    using q u(1) by auto
  show ?thesis
    using n u(2) a by (simp add: replace_str_sep replace_str_self replace_str_absent)
qed

lemma twice_occurrences:
  assumes q: "quote q1" "quote q2" "quote q3" "quote q4"
    and p: "\<forall>c\<in>set p. \<not> quote c" "p \<noteq> []"
  shows "occurrences p (A @ q1 # f @ q2 # B @ q3 # f @ q4 # C)
         = occurrences p A + occurrences p f + occurrences p B + occurrences p f + occurrences p C"
proof -
  have n: "q1 \<notin> set p" "q2 \<notin> set p" "q3 \<notin> set p" "q4 \<notin> set p"
    using q p(1) by auto
  show ?thesis
    using n p(2) by (simp add: occurrences_sep)
qed

text \<open>
  Claim C6. The HTML refers to the same image URL twice: the pattern finds the URL
  twice and nothing else, the URL stands between quotes at both places and occurs
  nowhere else, and the file name \<open>f\<close> that the download returns is new to the
  document. Then the HTML handed to the converter is the document with \<open>f\<close> at both
  places: it has no occurrence of the URL and two of \<open>f\<close>. The code downloads once
  per match, so twice here; whatever the second download returns, the result is the
  same, since the first replacement was already global.
\<close>

theorem same_image_twice:
  assumes urls: "img_urls html = [url, url]" and http: "prefix ''http'' url"
    and dl: "download_media env url dir w = (f, w1)" and f: "f \<noteq> []" "\<forall>c\<in>set f. \<not> quote c"
    and html: "html = A @ q1 # url @ q2 # B @ q3 # url @ q4 # C"
    and q: "quote q1" "quote q2" "quote q3" "quote q4"
    and only: "occurrences url A = 0" "occurrences url B = 0" "occurrences url C = 0"
    and new: "occurrences f A = 0" "occurrences f B = 0" "occurrences f C = 0" "occurrences url f = 0"
  shows "\<exists>w'. substitute env dir (img_urls html) html w = (A @ q1 # f @ q2 # B @ q3 # f @ q4 # C, w')
            \<and> process_html_content env html dir w
                = (html2text env (A @ q1 # f @ q2 # B @ q3 # f @ q4 # C), w')
            \<and> occurrences url (A @ q1 # f @ q2 # B @ q3 # f @ q4 # C) = 0
            \<and> occurrences f (A @ q1 # f @ q2 # B @ q3 # f @ q4 # C) = 2"
proof -
  let ?out = "A @ q1 # f @ q2 # B @ q3 # f @ q4 # C"
  from http have ne: "url \<noteq> []" by auto
  have nq: "\<forall>c\<in>set url. \<not> quote c"
    using img_urls_no_quote [of url html] urls by simp
  have r: "replace_str url f html = ?out"
    unfolding html using q nq ne only by (rule twice_replaced)
  have zero: "occurrences url ?out = 0"
    using twice_occurrences [OF q nq ne, of A f B C] only new(4) by simp
  have two: "occurrences f ?out = 2"
    using twice_occurrences [OF q f(2) f(1), of A f B C] new(1-3) f(1)
    by (simp add: occurrences_self)
  obtain g w2 where second: "download_media env url dir w1 = (g, w2)"
    by (cases "download_media env url dir w1")
  have again: "replace_str url g ?out = ?out"
    using ne zero by (rule replace_str_absent)
  have s: "substitute env dir [url, url] html w = (?out, w2)"
    using http dl f(1) second r again by simp
  then have "process_html_content env html dir w = (html2text env ?out, w2)"
    by (simp add: process_html_content_def urls)
  with s zero two urls show ?thesis by simp
qed

theorem same_image_twice_witness:
  "fst (process_html_content (sample_env (always image_reply :: unit net)) twice_html ''out'' w0)
     = Inr ''<img src='a.png'><p>x</p><img src='a.png'>''
   \<and> occurrences image_url ''<img src='a.png'><p>x</p><img src='a.png'>'' = 0
   \<and> occurrences ''a.png'' ''<img src='a.png'><p>x</p><img src='a.png'>'' = 2"
proof -
  let ?env = "sample_env (always image_reply :: unit net)"
  let ?w1 = "w0\<lparr>requests := [image_url], written := [(''out/a.png'', ''PNG'')]\<rparr>"
  have urls: "img_urls twice_html = [image_url, image_url]"
    by (simp add: twice_html_def image_url_def match_img_def src_tail_def quote_def)
  have http: "prefix ''http'' image_url"
    by (simp add: image_url_def)
  have dl: "download_media ?env image_url ''out'' w0 = (''a.png'', ?w1)"
    by (simp add: download_media_def download_media_try_def session_get_def sample_env_def
        always_def image_reply_def raise_for_status_def media_filename_def after_last_slash_def
        image_url_def path_defs w0_def Let_def)
  have shape: "twice_html = ''<img src='' @ CHR 0x27 # image_url @ CHR 0x27 # ''><p>x</p><img src=''
      @ CHR 0x27 # image_url @ CHR 0x27 # ''>''"
    by (simp add: twice_html_def image_url_def)
  have q: "quote (CHR 0x27)" by (simp add: quote_def)
  have fq: "\<forall>c\<in>set ''a.png''. \<not> quote c" by (simp add: quote_def)
  have o: "occurrences image_url ''<img src='' = 0" "occurrences image_url ''><p>x</p><img src='' = 0"
    "occurrences image_url ''>'' = 0" "occurrences ''a.png'' ''<img src='' = 0"
    "occurrences ''a.png'' ''><p>x</p><img src='' = 0" "occurrences ''a.png'' ''>'' = 0"
    "occurrences image_url ''a.png'' = 0"
    by (simp_all add: image_url_def)
  have c: "html2text ?env s = stub_html2text s" for s
    by (simp add: sample_env_def)
  from same_image_twice [OF urls http dl _ fq shape q q q q o(1,2,3,4,5,6,7)]
  obtain w' where
    "process_html_content ?env twice_html ''out'' w0
       = (html2text ?env (''<img src='' @ CHR 0x27 # ''a.png'' @ CHR 0x27 # ''><p>x</p><img src=''
            @ CHR 0x27 # ''a.png'' @ CHR 0x27 # ''>''), w')"
    and "occurrences image_url (''<img src='' @ CHR 0x27 # ''a.png'' @ CHR 0x27 # ''><p>x</p><img src=''
            @ CHR 0x27 # ''a.png'' @ CHR 0x27 # ''>'') = 0"
    and "occurrences ''a.png'' (''<img src='' @ CHR 0x27 # ''a.png'' @ CHR 0x27 # ''><p>x</p><img src=''
            @ CHR 0x27 # ''a.png'' @ CHR 0x27 # ''>'') = 2"
    by auto
  then show ?thesis
    by (simp add: c stub_html2text_def)
qed

subsection \<open>Failed downloads\<close>

lemma media_filename_nonempty: "media_filename env url r \<noteq> []"
  by (auto simp: media_filename_def Let_def)

lemma download_media_empty_iff:
  "fst (download_media env url dir w) = [] \<longleftrightarrow> (\<exists>e. fst (download_media_try env url dir w) = Inl e)"
proof (cases "download_media_try env url dir w")
  case (Pair res w')
  show ?thesis
  proof (cases res)
    case (Inl e)
    with Pair show ?thesis by (simp add: download_media_def)
  next
    case (Inr f)
    with Pair have "f \<noteq> []"
      by (auto simp: download_media_try_def session_get_def Let_def media_filename_nonempty
          split: get_outcome.splits sum.splits if_splits option.splits)
    with Pair Inr show ?thesis by (simp add: download_media_def)
  qed
qed

lemma download_media_get_raises:
  "network env (length (requests w)) url = Raises e \<Longrightarrow> fst (download_media env url dir w) = []"
  by (simp add: download_media_def download_media_try_def session_get_def)

lemma substitute_failed:
  "prefix ''http'' url \<Longrightarrow> fst (download_media env url dir w) = [] \<Longrightarrow>
   substitute env dir (url # others) html w
     = substitute env dir others html (snd (download_media env url dir w))"
  by (cases "download_media env url dir w") simp

lemma substitute_all_failed:
  assumes "\<And>u w'. fst (download_media env u dir w') = []"
  shows "fst (substitute env dir urls html w) = html"
proof (induction urls arbitrary: w)
  case Nil show ?case by simp
next
  case (Cons u urls)
  show ?case
  proof (cases "prefix ''http'' u")
    case True
    then show ?thesis
      using substitute_failed [OF True assms, of urls html w] Cons.IH by simp
  next
    case False
    then show ?thesis using Cons.IH by simp
  qed
qed

lemma offline_download: "fst (download_media (sample_env (script [])) u dir w') = []"
  by (simp add: download_media_def download_media_try_def session_get_def sample_env_def script_def)

lemma substitute_media_files:
  "fst (substitute env dir urls html w)
     = foldl (\<lambda>h p. replace_str (fst p) (snd p) h) html (media_files env dir urls w)"
proof (induction urls arbitrary: html w)
  case Nil
  show ?case by simp
next
  case (Cons u urls)
  show ?case
  proof (cases "prefix ''http'' u")
    case True
    obtain f w' where d: "download_media env u dir w = (f, w')"
      by (cases "download_media env u dir w")
    with True show ?thesis using Cons.IH by simp
  next
    case False
    then show ?thesis using Cons.IH by simp
  qed
qed

lemma media_files_all_failed:
  assumes "\<And>u w'. fst (download_media env u dir w') = []"
  shows "media_files env dir urls w = []"
proof (induction urls arbitrary: w)
  case Nil
  show ?case by simp
next
  case (Cons u urls)
  obtain f w' where d: "download_media env u dir w = (f, w')"
    by (cases "download_media env u dir w")
  with assms [of u w] have "f = []" by simp
  with d show ?case using Cons.IH by simp
qed

text \<open>
  Claim C7 says that the URL of a failed download is left as it is in the output, for
  every input. It is not when another download succeeds and its URL is part of the
  failed one: the replacement is of every occurrence of the text. Here the first
  image is downloaded, the second download fails, and the failed URL is gone from the
  HTML that is handed to the converter.
\<close>

theorem failed_url_rewritten_counterexample:
  "fst (download_media (sample_env (script [Returns image_reply])) versioned_url ''out''
          (snd (download_media (sample_env (script [Returns image_reply])) image_url ''out'' w0)))
     = []
   \<and> fst (process_html_content (sample_env (script [Returns image_reply])) mixed_html ''out'' w0)
     = Inr ''<img src='a.png'><img src='a.png?v=2'>''
   \<and> occurrences versioned_url ''<img src='a.png'><img src='a.png?v=2'>'' = 0"
  by (simp add: process_html_content_def mixed_html_def versioned_url_def image_url_def
      match_img_def src_tail_def quote_def
      download_media_def download_media_try_def session_get_def sample_env_def script_def
      image_reply_def raise_for_status_def media_filename_def after_last_slash_def
      path_defs w0_def Let_def stub_html2text_def)

text \<open>
  Claim C7 as amended. \<open>download_media\<close> never raises: it returns the empty string
  exactly when its \<^verbatim>\<open>try\<close> block raised (a connection failure, for one), and a
  file name that is not empty otherwise. A failed download replaces nothing: the loop
  goes on with the HTML unchanged, and the HTML handed to the converter is the input
  with the replacements of the downloads that succeeded, in order, and nothing else.
  So the URL of a failed download stays unless the replacement of a download that
  succeeded rewrites its text, and when every download fails the converter is given the
  HTML as it came. \<open>process_html_content\<close> returns what the converter returns: no
  exception of a download leaves it.
\<close>

theorem download_failure_replaces_nothing:
  "(fst (download_media env url dir w) = [] \<longleftrightarrow> (\<exists>e. fst (download_media_try env url dir w) = Inl e))
   \<and> ((\<exists>e. network env (length (requests w)) url = Raises e) \<longrightarrow> fst (download_media env url dir w) = [])
   \<and> (prefix ''http'' url \<and> fst (download_media env url dir w) = [] \<longrightarrow>
        substitute env dir (url # others) html w
          = substitute env dir others html (snd (download_media env url dir w))
        \<and> media_files env dir (url # others) w
          = media_files env dir others (snd (download_media env url dir w)))
   \<and> fst (process_html_content env html dir w)
        = html2text env (foldl (\<lambda>h p. replace_str (fst p) (snd p) h) html
            (media_files env dir (img_urls html) w))
   \<and> ((\<forall>u w'. fst (download_media env u dir w') = []) \<longrightarrow>
        fst (substitute env dir (img_urls html) html w) = html
        \<and> fst (process_html_content env html dir w) = html2text env html)"
proof (intro conjI impI)
  show "fst (download_media env url dir w) = [] \<longleftrightarrow> (\<exists>e. fst (download_media_try env url dir w) = Inl e)"
    by (rule download_media_empty_iff)
  show "fst (download_media env url dir w) = []" if "\<exists>e. network env (length (requests w)) url = Raises e"
    using that by (auto dest: download_media_get_raises)
  show "substitute env dir (url # others) html w
          = substitute env dir others html (snd (download_media env url dir w))"
    if "prefix ''http'' url \<and> fst (download_media env url dir w) = []"
    using that substitute_failed [of url env dir w others html] by blast
  show "media_files env dir (url # others) w
          = media_files env dir others (snd (download_media env url dir w))"
    if "prefix ''http'' url \<and> fst (download_media env url dir w) = []"
    using that by (cases "download_media env url dir w") simp
  show p: "fst (process_html_content env html dir w)
        = html2text env (foldl (\<lambda>h p. replace_str (fst p) (snd p) h) html
            (media_files env dir (img_urls html) w))"
    using substitute_media_files [of env dir "img_urls html" html w]
    by (cases "substitute env dir (img_urls html) html w") (simp add: process_html_content_def)
  show "fst (substitute env dir (img_urls html) html w) = html"
    if "\<forall>u w'. fst (download_media env u dir w') = []"
    using that by (simp add: substitute_all_failed)
  show "fst (process_html_content env html dir w) = html2text env html"
    if "\<forall>u w'. fst (download_media env u dir w') = []"
    using that by (simp add: p media_files_all_failed)
qed

theorem download_failure_replaces_nothing_witness:
  "fst (download_media (sample_env (script [] :: unit net)) image_url ''out'' w0) = []
   \<and> fst (download_media_try (sample_env (script [] :: unit net)) image_url ''out'' w0) = Inl RequestException
   \<and> fst (process_html_content (sample_env (script [] :: unit net)) twice_html ''out'' w0) = Inr twice_html
   \<and> prefix ''http'' image_url
   \<and> media_files (sample_env (script [Returns image_reply] :: unit net)) ''out'' (img_urls mixed_html) w0
       = [(image_url, ''a.png'')]
   \<and> fst (process_html_content (sample_env (script [Returns image_reply] :: unit net)) mixed_html ''out'' w0)
       = Inr ''<img src='a.png'><img src='a.png?v=2'>''"
proof -
  let ?env = "sample_env (script [] :: unit net)"
  let ?one = "sample_env (script [Returns image_reply] :: unit net)"
  have t: "fst (download_media_try ?env image_url ''out'' w0) = Inl RequestException"
    by (simp add: download_media_try_def session_get_def sample_env_def script_def)
  have h: "prefix ''http'' image_url" by (simp add: image_url_def)
  have c: "html2text ?env twice_html = Inr twice_html"
    by (simp add: sample_env_def stub_html2text_def twice_html_def)
  have all: "\<forall>u w'. fst (download_media ?env u ''out'' w') = []"
    by (simp add: offline_download)
  have m: "media_files ?one ''out'' (img_urls mixed_html) w0 = [(image_url, ''a.png'')]"
    by (simp add: mixed_html_def image_url_def match_img_def src_tail_def quote_def
      download_media_def download_media_try_def session_get_def sample_env_def script_def
      image_reply_def raise_for_status_def media_filename_def after_last_slash_def
      path_defs w0_def Let_def)
  have c2: "html2text ?one s = stub_html2text s" for s
    by (simp add: sample_env_def)
  have r: "replace_str image_url ''a.png'' mixed_html = ''<img src='a.png'><img src='a.png?v=2'>''"
    by (simp add: mixed_html_def image_url_def)
  have mixed: "fst (process_html_content ?one mixed_html ''out'' w0)
      = Inr ''<img src='a.png'><img src='a.png?v=2'>''"
    using download_failure_replaces_nothing [of ?one image_url "''out''" w0 "[]" mixed_html]
    by (simp add: m c2 r stub_html2text_def)
  note inst = download_failure_replaces_nothing [of ?env image_url "''out''" w0 "[]" twice_html]
  from inst all have off: "fst (process_html_content ?env twice_html ''out'' w0)
      = html2text ?env twice_html"
    by blast
  from inst t have e: "fst (download_media ?env image_url ''out'' w0) = []"
    by blast
  from off e t h c m mixed show ?thesis
    by simp
qed

section \<open>Properties of the walk over the pages\<close>

lemma download_media_logged: "logged (snd (download_media env url dir w)) = logged w"
  by (auto simp: download_media_def download_media_try_def session_get_def Let_def
      split: get_outcome.splits sum.splits option.splits)

lemma substitute_logged: "logged (snd (substitute env dir urls html w)) = logged w"
proof (induction urls arbitrary: html w)
  case Nil show ?case by simp
next
  case (Cons u urls)
  show ?case
  proof (cases "prefix ''http'' u")
    case True
    obtain f w' where d: "download_media env u dir w = (f, w')"
      by (cases "download_media env u dir w")
    then have "logged w' = logged w"
      using download_media_logged [of env u dir w] by simp
    with True d show ?thesis using Cons.IH by simp
  next
    case False
    then show ?thesis using Cons.IH by simp
  qed
qed

lemma process_html_content_logged: "logged (snd (process_html_content env html dir w)) = logged w"
  using substitute_logged [of env dir "img_urls html" html w]
  by (cases "substitute env dir (img_urls html) html w") (simp add: process_html_content_def)

lemma export_page_try_logged:
  "length (logged (snd (export_page_try env page dir w)))
     = length (logged w) + (case fst (export_page_try env page dir w) of Inl e \<Rightarrow> 0 | Inr u \<Rightarrow> 1)"
proof (cases "map_of page ''id''")
  case None
  then show ?thesis by (simp add: export_page_try_def)
next
  case (Some page_id)
  let ?w1 = "w\<lparr>requests := requests w @ [content_url page_id]\<rparr>"
  show ?thesis
  proof (cases "network env (length (requests w)) (content_url page_id)")
    case (Raises e)
    with Some show ?thesis by (simp add: export_page_try_def session_get_def)
  next
    case (Returns r)
    show ?thesis
    proof (cases "raise_for_status r")
      case (Inl e)
      with Some Returns show ?thesis by (simp add: export_page_try_def session_get_def)
    next
      case (Inr u)
      obtain res w2 where p: "process_html_content env (body_text r) dir ?w1 = (res, w2)"
        by (cases "process_html_content env (body_text r) dir ?w1")
      then have l: "logged w2 = logged w"
        using process_html_content_logged [of env "body_text r" dir ?w1] by simp
      show ?thesis
        using Some Returns Inr p l
        by (cases res) (simp_all add: export_page_try_def session_get_def Let_def)
    qed
  qed
qed

lemma export_page_logged:
  "length (logged (export_page env page dir w)) = length (logged w) + 1"
  using export_page_try_logged [of env page dir w]
  by (cases "export_page_try env page dir w"; cases "fst (export_page_try env page dir w)")
     (simp_all add: export_page_def)

lemma export_pages_logged:
  "length (logged (export_pages env pages dir w)) = length (logged w) + length pages"
  by (induction pages arbitrary: w) (simp_all add: export_page_logged)

lemma export_pages_append:
  "export_pages env (xs @ ys) dir w = export_pages env ys dir (export_pages env xs dir w)"
  by (induction xs arbitrary: w) simp_all

text \<open>
  Claim C8. When the \<^verbatim>\<open>try\<close> block of \<open>export_page\<close> raises for a page,
  wherever it raises, the failure is logged and the loop goes on with the pages after
  it; every page of the list gets its log line, exported or failed.
\<close>

theorem failed_page_is_logged_and_skipped:
  assumes "export_page_try env page dir (export_pages env before dir w) = (Inl e, w1)"
  shows "export_pages env (before @ page # after) dir w
           = export_pages env after dir
               (w1\<lparr>logged := logged w1 @ [Failed (dict_get page ''title'' ''Unknown'') e]\<rparr>)
       \<and> length (logged (export_pages env (before @ page # after) dir w))
           = length (logged w) + length before + 1 + length after"
proof
  show "export_pages env (before @ page # after) dir w
           = export_pages env after dir
               (w1\<lparr>logged := logged w1 @ [Failed (dict_get page ''title'' ''Unknown'') e]\<rparr>)"
    using assms by (simp add: export_pages_append export_page_def)
  show "length (logged (export_pages env (before @ page # after) dir w))
           = length (logged w) + length before + 1 + length after"
    by (simp add: export_pages_logged)
qed

theorem failed_page_is_logged_and_skipped_witness:
  "export_pages (sample_env two_bodies) [page_A, page_B] ''out/Work/Ideas'' w0
   = \<lparr>requests = [content_url ''1'', content_url ''2''], slept = [],
      written = [(''out/Work/Ideas/B_ plan.md'',
                  file_text (sample_env two_bodies) ''B: plan'' ''<h1>B</h1>'')],
      logged = [Failed ''A'' OtherException, Exported ''B: plan''], longest_sleep = 9000000000\<rparr>"
proof -
  let ?env = "sample_env two_bodies"
  let ?w1 = "w0\<lparr>requests := [content_url ''1'']\<rparr>"
  have a: "export_page_try ?env page_A ''out/Work/Ideas'' (export_pages ?env [] ''out/Work/Ideas'' w0)
      = (Inl OtherException, ?w1)"
    by (simp add: export_page_try_def page_A_def session_get_def sample_env_def two_bodies_def
        script_def reply_def raise_for_status_def process_html_content_def stub_html2text_def w0_def)
  have b: "export_pages ?env [page_B] ''out/Work/Ideas''
        (?w1\<lparr>logged := logged ?w1 @ [Failed (dict_get page_A ''title'' ''Unknown'') OtherException]\<rparr>)
      = \<lparr>requests = [content_url ''1'', content_url ''2''], slept = [],
      written = [(''out/Work/Ideas/B_ plan.md'', file_text ?env ''B: plan'' ''<h1>B</h1>'')],
      logged = [Failed ''A'' OtherException, Exported ''B: plan''], longest_sleep = 9000000000\<rparr>"
    by (simp add: export_page_def export_page_try_def page_A_def page_B_def session_get_def
        sample_env_def two_bodies_def dict_get_def safe_title_def sanitize_def illegal_def
        strip_def isspace_def path_join_def path_root_def path_parts_def path_str_def
        script_def reply_def raise_for_status_def process_html_content_def stub_html2text_def w0_def
        match_img_def Let_def)
  from failed_page_is_logged_and_skipped
    [of ?env page_A "''out/Work/Ideas''" "[]" w0 OtherException ?w1 "[page_B]", OF a]
  have "export_pages ?env ([] @ page_A # [page_B]) ''out/Work/Ideas'' w0
      = export_pages ?env [page_B] ''out/Work/Ideas''
          (?w1\<lparr>logged := logged ?w1 @ [Failed (dict_get page_A ''title'' ''Unknown'') OtherException]\<rparr>)"
    by (rule conjunct1)
  then show ?thesis
    by (simp only: b append_Nil)
qed

end
